theory Spec2Isabelle
  imports Main "HOL-Library.Sublist"
begin

section \<open>JavaScript values\<close>

text \<open>
  The values the sanitizer can receive. An object is given by its prototype and by its
  own enumerable properties in the order in which \<open>for (const key in current)\<close> visits
  them (an association list; a JavaScript object has each key once). \<open>JObj\<close> is an
  object whose prototype is \<open>Object.prototype\<close>, as an object literal and a parser of
  JSON build it; \<open>JObjP p\<close> is an object whose prototype is the value \<open>p\<close>, an object or
  \<open>null\<close>. A \<open>JArr\<close> is an array, given by its items. \<open>JObjectCtor\<close> is the built-in
  function \<open>Object\<close>, the value \<open>isPlainObject\<close> compares \<open>val.constructor\<close> with,
  and \<open>JFunction\<close> is any other function. \<open>JOther\<close> is an object the code never looks
  into: a \<open>Date\<close>, a \<open>Map\<close>, an instance of a class. Its constructor is a function other
  than \<open>Object\<close> and it inherits from \<open>Object.prototype\<close>. The payload of a number is
  never inspected by the code, and a symbol or a big integer goes the way of a number. A
  string is the list of its code units; the code tells only \<open>$\<close> and \<open>.\<close> from the
  others.

  A prototype is held as a value: within one call nothing assigns to an object after it
  has become a prototype. What the language can do beyond this data is left out:
  accessors and read-only properties of the values themselves, holes in arrays and
  properties added to arrays. So a function or an object of a class that becomes the
  prototype of a result is taken to let every assignment through. A result lists its
  properties in the order in which they were added; JavaScript enumerates the keys that
  are array indices first, which changes no value stored under a key.
\<close>

datatype jsval =
    JUndefined
  | JNull
  | JBool bool
  | JNum int
  | JStr string
  | JArr "jsval list"
  | JObj "(string \<times> jsval) list"
  | JObjP jsval "(string \<times> jsval) list"
  | JObjectCtor
  | JFunction nat
  | JOther nat

fun isString :: "jsval \<Rightarrow> bool" where
  "isString (JStr s) = True"
| "isString v = False"

fun isArray :: "jsval \<Rightarrow> bool" where
  "isArray (JArr xs) = True"
| "isArray v = False"

text \<open>The values of type Object of the language: objects, arrays and functions.\<close>

fun isObject :: "jsval \<Rightarrow> bool" where
  "isObject (JArr xs) = True"
| "isObject (JObj kvs) = True"
| "isObject (JObjP p kvs) = True"
| "isObject JObjectCtor = True"
| "isObject (JFunction n) = True"
| "isObject (JOther n) = True"
| "isObject v = False"

text \<open>
  \<open>val.constructor\<close> reads the own property \<open>constructor\<close> when the object has one and
  goes up the chain of prototypes otherwise: \<open>Object.prototype.constructor\<close> is
  \<open>Object\<close>, an array, a function and an object of a class inherit a function that is
  not \<open>Object\<close>, and where the chain ends in \<open>null\<close> the property is \<open>undefined\<close>. The
  code asks of the value whether it is \<open>Object\<close> and the copying library whether it is
  a function, so the result is one of three.
\<close>

datatype ctor = Ctor_Object | Ctor_function | Ctor_no_function

fun ctor_of :: "jsval \<Rightarrow> ctor" where
  "ctor_of JObjectCtor = Ctor_Object"
| "ctor_of (JFunction n) = Ctor_function"
| "ctor_of v = Ctor_no_function"

fun get_constructor :: "jsval \<Rightarrow> ctor" where
  "get_constructor (JObj kvs) =
     (case map_of kvs ''constructor'' of None \<Rightarrow> Ctor_Object | Some c \<Rightarrow> ctor_of c)"
| "get_constructor (JObjP p kvs) =
     (case map_of kvs ''constructor'' of None \<Rightarrow> get_constructor p | Some c \<Rightarrow> ctor_of c)"
| "get_constructor (JArr xs) = Ctor_function"
| "get_constructor JObjectCtor = Ctor_function"
| "get_constructor (JFunction n) = Ctor_function"
| "get_constructor (JOther n) = Ctor_function"
| "get_constructor v = Ctor_no_function"

fun isPlainObject :: "jsval \<Rightarrow> bool" where
  "isPlainObject (JObj kvs) = (get_constructor (JObj kvs) = Ctor_Object)"
| "isPlainObject (JObjP p kvs) = (get_constructor (JObjP p kvs) = Ctor_Object)"
| "isPlainObject v = False"

section \<open>The two regular expressions, \<open>match\<close> and \<open>replace\<close>\<close>

text \<open>
  Both patterns are a class of single characters with the flag \<open>g\<close>, so a pattern is the
  predicate of the characters it matches, every match is one character long and the
  matches of a string are exactly its positions holding such a character.
\<close>

type_synonym regex = "char \<Rightarrow> bool"

definition NO_SQL_CHARS_TO_REPLACE :: regex where
  "NO_SQL_CHARS_TO_REPLACE c = (c = CHR ''$'')"

definition DOT_NO_SQL_CHARS_TO_REPLACE :: regex where
  "DOT_NO_SQL_CHARS_TO_REPLACE c = (c = CHR ''$'' \<or> c = CHR ''.'')"

text \<open>\<open>s.match(re)\<close> is an array of the matches, or \<open>null\<close> when there is none; the code
  only tests its truthiness.\<close>

definition match :: "string \<Rightarrow> regex \<Rightarrow> bool" where
  "match s re = list_ex re s"

text \<open>
  \<open>s.replace(re, replaceWith)\<close> with a string as second argument expands the
  replacement patterns of the language in it at every match (the operation
  GetSubstitution of ECMAScript): \<open>$$\<close> is a dollar sign, \<open>$&\<close> the matched text,
  \<open>$`\<close> the text that precedes the match and \<open>$'\<close> the text that follows it. The
  patterns have no capture group, so \<open>$1\<close> .. \<open>$99\<close> and \<open>$<\<close> stay as they are
  written, as does a dollar sign in front of any other character or at the end.
\<close>

fun getSubstitution :: "string \<Rightarrow> string \<Rightarrow> string \<Rightarrow> string \<Rightarrow> string" where
  "getSubstitution matched preceding following [] = []"
| "getSubstitution matched preceding following [c] = [c]"
| "getSubstitution matched preceding following (c # d # rest) =
     (if c = CHR ''$'' \<and> d = CHR ''$''
      then CHR ''$'' # getSubstitution matched preceding following rest
      else if c = CHR ''$'' \<and> d = CHR ''&''
      then matched @ getSubstitution matched preceding following rest
      else if c = CHR ''$'' \<and> d = CHR 0x60
      then preceding @ getSubstitution matched preceding following rest
      else if c = CHR ''$'' \<and> d = CHR 0x27
      then following @ getSubstitution matched preceding following rest
      else c # getSubstitution matched preceding following (d # rest))"

fun replace_from :: "regex \<Rightarrow> string \<Rightarrow> string \<Rightarrow> string \<Rightarrow> string" where
  "replace_from re replaceValue preceding [] = []"
| "replace_from re replaceValue preceding (c # cs) =
     (if re c
      then getSubstitution [c] preceding cs replaceValue
             @ replace_from re replaceValue (preceding @ [c]) cs
      else c # replace_from re replaceValue (preceding @ [c]) cs)"

definition replace :: "string \<Rightarrow> regex \<Rightarrow> string \<Rightarrow> string" where
  "replace s re replaceValue = replace_from re replaceValue [] s"

section \<open>Options and result\<close>

text \<open>
  A field of the options is \<open>None\<close> when the caller left it out. \<open>replaceWith\<close> may hold
  any value: the code takes it only when it is a string.
\<close>

record options =
  replaceWith :: "jsval option"
  dryRun :: "bool option"
  allowDots :: "bool option"

definition no_options :: options where
  "no_options = \<lparr>replaceWith = None, dryRun = None, allowDots = None\<rparr>"

record result =
  isSanitized :: bool
  target :: jsval

text \<open>The three constants \<open>_sanitize\<close> computes from its options and its inner function
  captures.\<close>

record closure =
  c_replaceWith :: string
  c_dryRun :: bool
  c_allowDots :: bool

definition charRegex :: "closure \<Rightarrow> regex" where
  "charRegex e = (if c_allowDots e then NO_SQL_CHARS_TO_REPLACE else DOT_NO_SQL_CHARS_TO_REPLACE)"

section \<open>The recursive sanitizer\<close>

text \<open>
  The assignment \<open>newObj[newKey] = v\<close>. An own property keeps its place and takes the
  new value. When the object has no own property of that name the language looks the
  name up along the prototypes: a data property found there, or none, makes the
  assignment add an own property at the end; an accessor found there is called. The only
  accessor this data inherits is \<open>__proto__\<close> of \<open>Object.prototype\<close>, whose setter
  replaces the prototype of the object when the value is an object or \<open>null\<close>, does
  nothing for any other value, and adds no property.
\<close>

fun set_own :: "(string \<times> 'a) list \<Rightarrow> string \<Rightarrow> 'a \<Rightarrow> (string \<times> 'a) list" where
  "set_own [] k v = [(k, v)]"
| "set_own ((k', v') # rest) k v =
     (if k' = k then (k, v) # rest else (k', v') # set_own rest k v)"

text \<open>The lookup of \<open>__proto__\<close> from the object upwards ends at the accessor of
  \<open>Object.prototype\<close>: no object on the way has an own property of that name and the
  chain does not end in \<open>null\<close>.\<close>

fun finds_setter :: "jsval \<Rightarrow> bool" where
  "finds_setter (JObj kvs) = (map_of kvs ''__proto__'' = None)"
| "finds_setter (JObjP p kvs) = (map_of kvs ''__proto__'' = None \<and> finds_setter p)"
| "finds_setter (JArr xs) = True"
| "finds_setter JObjectCtor = True"
| "finds_setter (JFunction n) = True"
| "finds_setter (JOther n) = True"
| "finds_setter v = False"

fun own_props :: "jsval \<Rightarrow> (string \<times> jsval) list" where
  "own_props (JObj kvs) = kvs"
| "own_props (JObjP p kvs) = kvs"
| "own_props v = []"

fun with_own :: "jsval \<Rightarrow> (string \<times> jsval) list \<Rightarrow> jsval" where
  "with_own (JObj kvs) new = JObj new"
| "with_own (JObjP p kvs) new = JObjP p new"
| "with_own v new = v"

fun setPrototypeOf :: "jsval \<Rightarrow> jsval \<Rightarrow> jsval" where
  "setPrototypeOf (JObj kvs) p = JObjP p kvs"
| "setPrototypeOf (JObjP q kvs) p = JObjP p kvs"
| "setPrototypeOf v p = v"

definition obj_set :: "jsval \<Rightarrow> string \<Rightarrow> jsval \<Rightarrow> jsval" where
  "obj_set newObj k v =
     (if k = ''__proto__'' \<and> finds_setter newObj
      then (if isObject v \<or> v = JNull then setPrototypeOf newObj v else newObj)
      else with_own newObj (set_own (own_props newObj) k v))"

text \<open>
  \<open>_recursiveSanitize\<close> (a name cannot start with an underscore here, so it is
  \<open>u_recursiveSanitize\<close>) with the variable \<open>hasSanitized\<close> it assigns passed in and
  returned. \<open>sanitizeProps\<close> is its \<open>for ... in\<close> loop over the remaining own properties
  (the test of \<open>hasOwnProperty\<close> drops the inherited ones), with \<open>newObj\<close>, which starts as
  \<open>{}\<close>, as built so far; \<open>sanitizeItems\<close> is the callback of \<open>current.map\<close> run over the
  items.
\<close>

function (sequential) u_recursiveSanitize :: "closure \<Rightarrow> jsval \<Rightarrow> bool \<Rightarrow> jsval \<times> bool"
  and sanitizeProps ::
    "closure \<Rightarrow> (string \<times> jsval) list \<Rightarrow> jsval \<Rightarrow> bool \<Rightarrow> jsval \<times> bool"
  and sanitizeItems :: "closure \<Rightarrow> jsval list \<Rightarrow> bool \<Rightarrow> jsval list \<times> bool"
where
  "u_recursiveSanitize e (JObj kvs) hasSanitized =
     (if isPlainObject (JObj kvs)
      then sanitizeProps e kvs (JObj []) hasSanitized
      else (JObj kvs, hasSanitized))"
| "u_recursiveSanitize e (JObjP p kvs) hasSanitized =
     (if isPlainObject (JObjP p kvs)
      then sanitizeProps e kvs (JObj []) hasSanitized
      else (JObjP p kvs, hasSanitized))"
| "u_recursiveSanitize e (JArr xs) hasSanitized =
     (case sanitizeItems e xs hasSanitized of (ys, h) \<Rightarrow> (JArr ys, h))"
| "u_recursiveSanitize e current hasSanitized = (current, hasSanitized)"
| "sanitizeProps e [] newObj hasSanitized = (newObj, hasSanitized)"
| "sanitizeProps e ((key, val) # rest) newObj hasSanitized =
     (let keyCharRegex = charRegex e;
          keyMatch = match key keyCharRegex;
          newKey = (if keyMatch then replace key keyCharRegex (c_replaceWith e) else key);
          h1 = (if keyMatch \<and> \<not> c_dryRun e then True else hasSanitized)
      in if isPlainObject val \<or> isArray val
         then (case u_recursiveSanitize e val h1 of
                 (v, h2) \<Rightarrow> sanitizeProps e rest (obj_set newObj newKey v) h2)
         else (case val of
                 JStr s \<Rightarrow>
                   (let valCharRegex = charRegex e
                    in if match s valCharRegex
                       then (if \<not> c_dryRun e
                             then sanitizeProps e rest
                                    (obj_set newObj newKey
                                       (JStr (replace s valCharRegex (c_replaceWith e)))) True
                             else sanitizeProps e rest (obj_set newObj newKey val) h1)
                       else sanitizeProps e rest (obj_set newObj newKey val) h1)
               | _ \<Rightarrow> sanitizeProps e rest (obj_set newObj newKey val) h1))"
| "sanitizeItems e [] hasSanitized = ([], hasSanitized)"
| "sanitizeItems e (item # items) hasSanitized =
     (if isPlainObject item \<or> isArray item
      then (case u_recursiveSanitize e item hasSanitized of
              (v, h) \<Rightarrow> (case sanitizeItems e items h of (vs, h') \<Rightarrow> (v # vs, h')))
      else (case item of
              JStr s \<Rightarrow>
                (let itemCharRegex = charRegex e
                 in if match s itemCharRegex \<and> \<not> c_dryRun e
                    then (case sanitizeItems e items True of
                            (vs, h') \<Rightarrow>
                              (JStr (replace s itemCharRegex (c_replaceWith e)) # vs, h'))
                    else (case sanitizeItems e items hasSanitized of
                            (vs, h') \<Rightarrow> (item # vs, h')))
            | _ \<Rightarrow> (case sanitizeItems e items hasSanitized of
                      (vs, h') \<Rightarrow> (item # vs, h'))))"
  by pat_completeness auto
termination
  by (relation "measure (\<lambda>x. case x of
          Inl (e, v, h) \<Rightarrow> 2 * size v
        | Inr (Inl (e, kvs, newObj, h)) \<Rightarrow> 2 * size_list (size_prod (\<lambda>x. 0) size) kvs + 1
        | Inr (Inr (e, xs, h)) \<Rightarrow> 2 * size_list size xs + 1)")
     auto

section \<open>The engine and the two helpers\<close>

text \<open>
  \<open>cloneDeep\<close> is the function of the package \<open>lodash.clonedeep\<close> the code imports
  (release 4.5.0, the one the range of \<open>package.json\<close> selects). It is not part of the
  repository and is modelled after the library: a primitive value and a function inside
  the data are returned as they are; an array is copied item by item; an object is
  copied into a new object, each own enumerable property in turn by the assignment
  \<open>result[key] = copy\<close>, so that an own property \<open>__proto__\<close> of the input goes through
  the setter as in \<open>obj_set\<close>. The new object (\<open>initCloneObject\<close>) has the prototype of
  the input when \<open>constructor\<close> of the input is a function and that prototype is an
  object, and is \<open>{}\<close> otherwise. Values here carry no identity, so the copy of an object
  the code does not look into is the same value.
\<close>

definition initCloneObject :: "jsval \<Rightarrow> jsval" where
  "initCloneObject object =
     (case object of
        JObjP p kvs \<Rightarrow>
          (if get_constructor object \<noteq> Ctor_no_function \<and> isObject p then JObjP p [] else JObj [])
      | _ \<Rightarrow> JObj [])"

definition assignValue :: "string \<times> jsval \<Rightarrow> jsval \<Rightarrow> jsval" where
  "assignValue p result = obj_set result (fst p) (snd p)"

primrec cloneDeep :: "jsval \<Rightarrow> jsval" where
  "cloneDeep JUndefined = JUndefined"
| "cloneDeep JNull = JNull"
| "cloneDeep (JBool b) = JBool b"
| "cloneDeep (JNum n) = JNum n"
| "cloneDeep (JStr s) = JStr s"
| "cloneDeep (JArr xs) = JArr (map cloneDeep xs)"
| "cloneDeep (JObj kvs) =
     fold assignValue (map (map_prod id cloneDeep) kvs) (initCloneObject (JObj kvs))"
| "cloneDeep (JObjP p kvs) =
     fold assignValue (map (map_prod id cloneDeep) kvs) (initCloneObject (JObjP p kvs))"
| "cloneDeep JObjectCtor = JObjectCtor"
| "cloneDeep (JFunction n) = JFunction n"
| "cloneDeep (JOther n) = JOther n"

text \<open>The constants \<open>_sanitize\<close> reads from its options: \<open>replaceWith\<close> only when it is
  there and a string, \<open>'_'\<close> otherwise; \<open>dryRun\<close> and \<open>allowDots\<close> false when left out.\<close>

definition closure_of :: "options \<Rightarrow> closure" where
  "closure_of opts =
     \<lparr>c_replaceWith = (case replaceWith opts of Some (JStr s) \<Rightarrow> s | _ \<Rightarrow> ''_''),
      c_dryRun = (case dryRun opts of Some b \<Rightarrow> b | None \<Rightarrow> False),
      c_allowDots = (case allowDots opts of Some b \<Rightarrow> b | None \<Rightarrow> False)\<rparr>"

text \<open>\<open>_sanitize\<close>, named \<open>u_sanitize\<close> here.\<close>

definition u_sanitize :: "jsval \<Rightarrow> options \<Rightarrow> result" where
  "u_sanitize obj opts =
     (let e = closure_of opts;
          hasSanitized = False
      in case obj of
           JStr s \<Rightarrow>
             (let charRegex = (if c_allowDots e then NO_SQL_CHARS_TO_REPLACE
                               else DOT_NO_SQL_CHARS_TO_REPLACE)
              in if match s charRegex
                 then \<lparr>isSanitized = True,
                       target = (if c_dryRun e then obj
                                 else JStr (replace s charRegex (c_replaceWith e)))\<rparr>
                 else \<lparr>isSanitized = hasSanitized, target = obj\<rparr>)
         | _ \<Rightarrow>
             (if \<not> isPlainObject obj \<and> \<not> isArray obj
              then \<lparr>isSanitized = hasSanitized, target = obj\<rparr>
              else (case u_recursiveSanitize e (cloneDeep obj) hasSanitized of
                      (sanitizedTarget, h) \<Rightarrow>
                        \<lparr>isSanitized = h,
                         target = (if c_dryRun e then obj else sanitizedTarget)\<rparr>)))"

text \<open>\<open>sanitize(value, options)\<close>: the options may be left out, and are \<open>{}\<close> then.\<close>

definition sanitize :: "jsval \<Rightarrow> options option \<Rightarrow> jsval" where
  "sanitize v options =
     target (u_sanitize v (case options of None \<Rightarrow> no_options | Some opts \<Rightarrow> opts))"

definition has :: "jsval \<Rightarrow> bool" where
  "has v = isSanitized (u_sanitize v (no_options\<lparr>dryRun := Some True\<rparr>))"

section \<open>Derived views of the sanitizer\<close>

text \<open>
  The value and the flag \<open>_recursiveSanitize\<close> gives when \<open>hasSanitized\<close> is still false,
  and, for one item of an array or one property of an object, what the loop stores and
  whether it sets the flag. They are proved below to describe the three functions for
  any starting flag.
\<close>

definition sanV :: "closure \<Rightarrow> jsval \<Rightarrow> jsval" where
  "sanV e v = fst (u_recursiveSanitize e v False)"

definition flagV :: "closure \<Rightarrow> jsval \<Rightarrow> bool" where
  "flagV e v = snd (u_recursiveSanitize e v False)"

definition newKey_of :: "closure \<Rightarrow> string \<Rightarrow> string" where
  "newKey_of e key =
     (if match key (charRegex e) then replace key (charRegex e) (c_replaceWith e) else key)"

definition item_value :: "closure \<Rightarrow> jsval \<Rightarrow> jsval" where
  "item_value e v =
     (if isPlainObject v \<or> isArray v then sanV e v
      else (case v of
              JStr s \<Rightarrow> (if match s (charRegex e) \<and> \<not> c_dryRun e
                         then JStr (replace s (charRegex e) (c_replaceWith e)) else v)
            | _ \<Rightarrow> v))"

definition item_flag :: "closure \<Rightarrow> jsval \<Rightarrow> bool" where
  "item_flag e v =
     (if isPlainObject v \<or> isArray v then flagV e v
      else (case v of JStr s \<Rightarrow> match s (charRegex e) \<and> \<not> c_dryRun e | _ \<Rightarrow> False))"

definition prop_flag :: "closure \<Rightarrow> string \<times> jsval \<Rightarrow> bool" where
  "prop_flag e p = ((match (fst p) (charRegex e) \<and> \<not> c_dryRun e) \<or> item_flag e (snd p))"

definition prop_image :: "closure \<Rightarrow> string \<times> jsval \<Rightarrow> string \<times> jsval" where
  "prop_image e p = (newKey_of e (fst p), item_value e (snd p))"

definition prop_step :: "closure \<Rightarrow> string \<times> jsval \<Rightarrow> jsval \<Rightarrow> jsval" where
  "prop_step e p newObj = obj_set newObj (newKey_of e (fst p)) (item_value e (snd p))"

text \<open>The step of the loop on the list of own properties, which is what the assignment
  comes to when the new key is not \<open>__proto__\<close>.\<close>

definition own_step ::
  "closure \<Rightarrow> string \<times> jsval \<Rightarrow> (string \<times> jsval) list \<Rightarrow> (string \<times> jsval) list" where
  "own_step e p out = set_own out (newKey_of e (fst p)) (item_value e (snd p))"

section \<open>Notions of the specification\<close>

text \<open>The forbidden characters of a policy: \<open>$\<close> always, and \<open>.\<close> unless \<open>allowDots\<close> is
  true.\<close>

definition forbidden :: "options \<Rightarrow> char \<Rightarrow> bool" where
  "forbidden opts c = (c = CHR ''$'' \<or> (c = CHR ''.'' \<and> allowDots opts \<noteq> Some True))"

text \<open>A JavaScript object has each key once, at every level.\<close>

fun wf_val :: "jsval \<Rightarrow> bool" where
  "wf_val (JArr xs) = (\<forall>x \<in> set xs. wf_val x)"
| "wf_val (JObj kvs) = (distinct (map fst kvs) \<and> (\<forall>p \<in> set kvs. wf_val (snd p)))"
| "wf_val (JObjP q kvs) =
     (wf_val q \<and> distinct (map fst kvs) \<and> (\<forall>p \<in> set kvs. wf_val (snd p)))"
| "wf_val v = True"

text \<open>
  Data in which nothing touches a prototype: every object has the prototype
  \<open>Object.prototype\<close> and holds no key that the policy turns into \<open>__proto__\<close> (the key
  \<open>__proto__\<close> itself is one, and under the default policy so are \<open>$_proto__\<close> and
  \<open>._proto__\<close>).
\<close>

fun proto_free :: "closure \<Rightarrow> jsval \<Rightarrow> bool" where
  "proto_free e (JArr xs) = (\<forall>x \<in> set xs. proto_free e x)"
| "proto_free e (JObj kvs) =
     (\<forall>p \<in> set kvs. newKey_of e (fst p) \<noteq> ''__proto__'' \<and> proto_free e (snd p))"
| "proto_free e (JObjP q kvs) = False"
| "proto_free e v = True"

text \<open>Replacing every character of the class by the replacement string as it is
  written.\<close>

definition literal_replace :: "regex \<Rightarrow> string \<Rightarrow> string \<Rightarrow> string" where
  "literal_replace re r s = concat (map (\<lambda>c. if re c then r else [c]) s)"

text \<open>The replacement string holds one of the patterns \<open>$$\<close>, \<open>$&\<close>, \<open>$`\<close>, \<open>$'\<close> that
  \<open>replace\<close> expands.\<close>

fun has_pattern :: "string \<Rightarrow> bool" where
  "has_pattern (c # d # rest) =
     ((c = CHR ''$'' \<and> (d = CHR ''$'' \<or> d = CHR ''&'' \<or> d = CHR 0x60 \<or> d = CHR 0x27))
      \<or> has_pattern (d # rest))"
| "has_pattern r = False"


text \<open>
  The output \<open>t\<close> has the container shape of the input \<open>v\<close>, where \<open>f\<close> is what the policy
  does to a key: an array stays an array of the same length whose items keep their shape
  position by position; an object stays an object that has at most as many keys, fewer
  only when \<open>f\<close> sends two different keys of the input to the same key, and every entry
  of the output comes from an entry of the input, under its key or the image of its key
  and with a value of the same shape; a string stays a string and any other value stays
  what it is.
\<close>

fun same_shape :: "(string \<Rightarrow> string) \<Rightarrow> jsval \<Rightarrow> jsval \<Rightarrow> bool" where
  "same_shape f (JArr xs) t =
     (case t of JArr ys \<Rightarrow> list_all2 (same_shape f) xs ys | _ \<Rightarrow> False)"
| "same_shape f (JObj kvs) t =
     (case t of
        JObj out \<Rightarrow>
          card (fst ` set out) \<le> card (fst ` set kvs)
          \<and> (card (fst ` set out) < card (fst ` set kvs)
               \<longrightarrow> (\<exists>p \<in> set kvs. \<exists>q \<in> set kvs. fst p \<noteq> fst q \<and> f (fst p) = f (fst q)))
          \<and> (\<forall>q \<in> set out. \<exists>p \<in> set kvs.
                 (fst q = f (fst p) \<or> fst q = fst p) \<and> same_shape f (snd p) (snd q))
      | _ \<Rightarrow> False)"
| "same_shape f (JStr s) t = isString t"
| "same_shape f v t = (t = v)"


text \<open>Data in which nothing touches a prototype and every object has each key once.\<close>

definition plain_data :: "closure \<Rightarrow> jsval \<Rightarrow> bool" where
  "plain_data e t = (wf_val t \<and> proto_free e t)"

section \<open>The engine on a store of objects\<close>

text \<open>
  Whether the caller's data is left alone is a question about objects that are shared
  and assigned to, so the engine is modelled a second time on an explicit store. An
  object or an array is a cell of the store and a value refers to it by its address;
  a cell \<open>CObj\<close> is an object on \<open>Object.prototype\<close> and a cell \<open>CObjP p\<close> an object whose
  prototype is the value \<open>p\<close>, an address or \<open>null\<close>. \<open>{}\<close>, \<open>map\<close> and the copy of
  \<open>cloneDeep\<close> add a cell at the end, and \<open>newObj[newKey] = v\<close> overwrites the cell of
  \<open>newObj\<close>. The data may be cyclic, in which case the recursion of the code does not
  end: the functions take a bound \<open>n\<close> on the depth of the recursion and return \<open>None\<close>
  when it is used up.
\<close>

type_synonym addr = nat

datatype hval =
    HUndefined
  | HNull
  | HBool bool
  | HNum int
  | HStr string
  | HRef addr
  | HObjectCtor
  | HFunction nat
  | HOther nat

datatype cell =
    CObj "(string \<times> hval) list"
  | CObjP hval "(string \<times> hval) list"
  | CArr "hval list"

type_synonym heap = "cell list"

definition cell_at :: "heap \<Rightarrow> addr \<Rightarrow> cell option" where
  "cell_at h a = (if a < length h then Some (h ! a) else None)"

definition alloc :: "heap \<Rightarrow> cell \<Rightarrow> addr \<times> heap" where
  "alloc h c = (length h, h @ [c])"

fun h_isArray :: "heap \<Rightarrow> hval \<Rightarrow> bool" where
  "h_isArray h (HRef a) = (case cell_at h a of Some (CArr xs) \<Rightarrow> True | _ \<Rightarrow> False)"
| "h_isArray h v = False"

fun h_isObject :: "hval \<Rightarrow> bool" where
  "h_isObject (HRef a) = True"
| "h_isObject HObjectCtor = True"
| "h_isObject (HFunction n) = True"
| "h_isObject (HOther n) = True"
| "h_isObject v = False"

text \<open>
  \<open>val.constructor\<close> and the lookup of \<open>__proto__\<close> go up the chain of prototypes. The
  language lets no chain of prototypes run into a cycle, so a chain is at most as long
  as the store, and the walk is given that many steps.
\<close>

fun h_ctor_of :: "hval \<Rightarrow> ctor" where
  "h_ctor_of HObjectCtor = Ctor_Object"
| "h_ctor_of (HFunction n) = Ctor_function"
| "h_ctor_of v = Ctor_no_function"

fun h_get_constructor :: "nat \<Rightarrow> heap \<Rightarrow> hval \<Rightarrow> ctor" where
  "h_get_constructor n h (HRef a) =
     (case cell_at h a of
        Some (CObj kvs) \<Rightarrow>
          (case map_of kvs ''constructor'' of None \<Rightarrow> Ctor_Object | Some c \<Rightarrow> h_ctor_of c)
      | Some (CObjP p kvs) \<Rightarrow>
          (case map_of kvs ''constructor'' of
             None \<Rightarrow> (case n of 0 \<Rightarrow> Ctor_no_function | Suc m \<Rightarrow> h_get_constructor m h p)
           | Some c \<Rightarrow> h_ctor_of c)
      | Some (CArr xs) \<Rightarrow> Ctor_function
      | None \<Rightarrow> Ctor_no_function)"
| "h_get_constructor n h HObjectCtor = Ctor_function"
| "h_get_constructor n h (HFunction m) = Ctor_function"
| "h_get_constructor n h (HOther m) = Ctor_function"
| "h_get_constructor n h v = Ctor_no_function"

fun h_finds_setter :: "nat \<Rightarrow> heap \<Rightarrow> hval \<Rightarrow> bool" where
  "h_finds_setter n h (HRef a) =
     (case cell_at h a of
        Some (CObj kvs) \<Rightarrow> map_of kvs ''__proto__'' = None
      | Some (CObjP p kvs) \<Rightarrow>
          map_of kvs ''__proto__'' = None
          \<and> (case n of 0 \<Rightarrow> False | Suc m \<Rightarrow> h_finds_setter m h p)
      | Some (CArr xs) \<Rightarrow> True
      | None \<Rightarrow> False)"
| "h_finds_setter n h HObjectCtor = True"
| "h_finds_setter n h (HFunction m) = True"
| "h_finds_setter n h (HOther m) = True"
| "h_finds_setter n h v = False"

fun h_isPlainObject :: "heap \<Rightarrow> hval \<Rightarrow> bool" where
  "h_isPlainObject h (HRef a) =
     (case cell_at h a of
        Some (CObj kvs) \<Rightarrow> h_get_constructor (length h) h (HRef a) = Ctor_Object
      | Some (CObjP p kvs) \<Rightarrow> h_get_constructor (length h) h (HRef a) = Ctor_Object
      | _ \<Rightarrow> False)"
| "h_isPlainObject h v = False"

text \<open>The own keys \<open>for ... in\<close> visits, \<open>current[key]\<close> for such a key,
  \<open>current.length\<close> and the item \<open>map\<close> passes to its callback.\<close>

definition h_keys :: "heap \<Rightarrow> addr \<Rightarrow> string list" where
  "h_keys h a =
     (case cell_at h a of
        Some (CObj kvs) \<Rightarrow> map fst kvs
      | Some (CObjP p kvs) \<Rightarrow> map fst kvs
      | _ \<Rightarrow> [])"

definition h_get :: "heap \<Rightarrow> addr \<Rightarrow> string \<Rightarrow> hval" where
  "h_get h a key =
     (case cell_at h a of
        Some (CObj kvs) \<Rightarrow> (case map_of kvs key of Some v \<Rightarrow> v | None \<Rightarrow> HUndefined)
      | Some (CObjP p kvs) \<Rightarrow> (case map_of kvs key of Some v \<Rightarrow> v | None \<Rightarrow> HUndefined)
      | _ \<Rightarrow> HUndefined)"

definition h_length :: "heap \<Rightarrow> addr \<Rightarrow> nat" where
  "h_length h a = (case cell_at h a of Some (CArr xs) \<Rightarrow> length xs | _ \<Rightarrow> 0)"

definition h_item :: "heap \<Rightarrow> addr \<Rightarrow> nat \<Rightarrow> hval" where
  "h_item h a i =
     (case cell_at h a of
        Some (CArr xs) \<Rightarrow> (if i < length xs then xs ! i else HUndefined)
      | _ \<Rightarrow> HUndefined)"

text \<open>The two assignments: \<open>newObj[newKey] = v\<close>, which for the key \<open>__proto__\<close> goes to
  the setter when the lookup finds it, as in \<open>obj_set\<close>; and the item \<open>map\<close> stores at an
  index of the array it returns.\<close>

definition h_set_prop :: "heap \<Rightarrow> addr \<Rightarrow> string \<Rightarrow> hval \<Rightarrow> heap" where
  "h_set_prop h a k v =
     (case cell_at h a of
        Some (CObj kvs) \<Rightarrow>
          (if k = ''__proto__'' \<and> h_finds_setter (length h) h (HRef a)
           then (if h_isObject v \<or> v = HNull then h[a := CObjP v kvs] else h)
           else h[a := CObj (set_own kvs k v)])
      | Some (CObjP p kvs) \<Rightarrow>
          (if k = ''__proto__'' \<and> h_finds_setter (length h) h (HRef a)
           then (if h_isObject v \<or> v = HNull then h[a := CObjP v kvs] else h)
           else h[a := CObjP p (set_own kvs k v)])
      | _ \<Rightarrow> h)"

definition h_set_item :: "heap \<Rightarrow> addr \<Rightarrow> nat \<Rightarrow> hval \<Rightarrow> heap" where
  "h_set_item h a i v =
     (case cell_at h a of Some (CArr xs) \<Rightarrow> h[a := CArr (xs[i := v])] | _ \<Rightarrow> h)"

text \<open>
  \<open>_recursiveSanitize\<close> on the store. \<open>h_sanitizeProps\<close> is the loop over the keys of
  \<open>current\<close>, reading \<open>current[key]\<close> from the store as it is at that moment and writing
  into \<open>newObj\<close>; \<open>h_sanitizeItems\<close> is \<open>map\<close> over the indices, writing into the array
  \<open>map\<close> created.
\<close>

function h_recursiveSanitize ::
    "nat \<Rightarrow> closure \<Rightarrow> hval \<Rightarrow> heap \<times> bool \<Rightarrow> (hval \<times> heap \<times> bool) option"
  and h_sanitizeProps ::
    "nat \<Rightarrow> closure \<Rightarrow> addr \<Rightarrow> string list \<Rightarrow> addr \<Rightarrow> heap \<times> bool \<Rightarrow> (heap \<times> bool) option"
  and h_sanitizeItems ::
    "nat \<Rightarrow> closure \<Rightarrow> addr \<Rightarrow> nat list \<Rightarrow> addr \<Rightarrow> heap \<times> bool \<Rightarrow> (heap \<times> bool) option"
where
  "h_recursiveSanitize 0 e current st = None"
| "h_recursiveSanitize (Suc n) e current (h, hasSanitized) =
     (if h_isPlainObject h current
      then (case current of
              HRef a \<Rightarrow>
                (case alloc h (CObj []) of
                   (newObj, h1) \<Rightarrow>
                     (case h_sanitizeProps n e a (h_keys h a) newObj (h1, hasSanitized) of
                        None \<Rightarrow> None
                      | Some (h2, f) \<Rightarrow> Some (HRef newObj, h2, f)))
            | _ \<Rightarrow> Some (current, h, hasSanitized))
      else if h_isArray h current
      then (case current of
              HRef a \<Rightarrow>
                (case alloc h (CArr (replicate (h_length h a) HUndefined)) of
                   (res, h1) \<Rightarrow>
                     (case h_sanitizeItems n e a [0 ..< h_length h a] res (h1, hasSanitized) of
                        None \<Rightarrow> None
                      | Some (h2, f) \<Rightarrow> Some (HRef res, h2, f)))
            | _ \<Rightarrow> Some (current, h, hasSanitized))
      else Some (current, h, hasSanitized))"
| "h_sanitizeProps n e cur [] newObj st = Some st"
| "h_sanitizeProps n e cur (key # keys) newObj (h, hasSanitized) =
     (let val = h_get h cur key;
          keyCharRegex = charRegex e;
          keyMatch = match key keyCharRegex;
          newKey = (if keyMatch then replace key keyCharRegex (c_replaceWith e) else key);
          f1 = (if keyMatch \<and> \<not> c_dryRun e then True else hasSanitized)
      in if h_isPlainObject h val \<or> h_isArray h val
         then (case h_recursiveSanitize n e val (h, f1) of
                 None \<Rightarrow> None
               | Some (v, h2, f2) \<Rightarrow>
                   h_sanitizeProps n e cur keys newObj (h_set_prop h2 newObj newKey v, f2))
         else (case val of
                 HStr s \<Rightarrow>
                   (let valCharRegex = charRegex e
                    in if match s valCharRegex
                       then (if \<not> c_dryRun e
                             then h_sanitizeProps n e cur keys newObj
                                    (h_set_prop h newObj newKey
                                       (HStr (replace s valCharRegex (c_replaceWith e))), True)
                             else h_sanitizeProps n e cur keys newObj
                                    (h_set_prop h newObj newKey val, f1))
                       else h_sanitizeProps n e cur keys newObj
                              (h_set_prop h newObj newKey val, f1))
               | _ \<Rightarrow> h_sanitizeProps n e cur keys newObj (h_set_prop h newObj newKey val, f1)))"
| "h_sanitizeItems n e cur [] res st = Some st"
| "h_sanitizeItems n e cur (i # is) res (h, hasSanitized) =
     (let item = h_item h cur i
      in if h_isPlainObject h item \<or> h_isArray h item
         then (case h_recursiveSanitize n e item (h, hasSanitized) of
                 None \<Rightarrow> None
               | Some (v, h2, f2) \<Rightarrow> h_sanitizeItems n e cur is res (h_set_item h2 res i v, f2))
         else (case item of
                 HStr s \<Rightarrow>
                   (let itemCharRegex = charRegex e
                    in if match s itemCharRegex \<and> \<not> c_dryRun e
                       then h_sanitizeItems n e cur is res
                              (h_set_item h res i
                                 (HStr (replace s itemCharRegex (c_replaceWith e))), True)
                       else h_sanitizeItems n e cur is res (h_set_item h res i item, hasSanitized))
               | _ \<Rightarrow> h_sanitizeItems n e cur is res (h_set_item h res i item, hasSanitized)))"
  by pat_completeness auto
termination
  by (relation "inv_image (less_than <*lex*> less_than)
        (\<lambda>x. case x of
           Inl (n, e, v, st) \<Rightarrow> (n, 0)
         | Inr (Inl (n, e, cur, keys, newObj, st)) \<Rightarrow> (n, Suc (length keys))
         | Inr (Inr (n, e, cur, is, res, st)) \<Rightarrow> (n, Suc (length is)))")
     auto

text \<open>
  \<open>cloneDeep\<close> of the package \<open>lodash.clonedeep\<close> on the store, as in \<open>cloneDeep\<close> above:
  an object is copied into a new cell, its properties assigned one after the other to
  the copy, and an array into a new array; every other value is kept. The copies of the
  parts are made before the cell of the whole is added, which changes addresses and
  nothing else. The function assigns to nothing that existed before the call.
\<close>

definition h_initCloneObject :: "heap \<Rightarrow> hval \<Rightarrow> cell" where
  "h_initCloneObject h object =
     (case object of
        HRef a \<Rightarrow>
          (case cell_at h a of
             Some (CObjP p kvs) \<Rightarrow>
               (if h_get_constructor (length h) h object \<noteq> Ctor_no_function \<and> h_isObject p
                then CObjP p [] else CObj [])
           | _ \<Rightarrow> CObj [])
      | _ \<Rightarrow> CObj [])"

definition h_assignValue :: "addr \<Rightarrow> string \<times> hval \<Rightarrow> heap \<Rightarrow> heap" where
  "h_assignValue result p h = h_set_prop h result (fst p) (snd p)"

function h_cloneDeep :: "nat \<Rightarrow> heap \<Rightarrow> hval \<Rightarrow> (hval \<times> heap) option"
  and h_cloneProps ::
    "nat \<Rightarrow> heap \<Rightarrow> (string \<times> hval) list \<Rightarrow> ((string \<times> hval) list \<times> heap) option"
  and h_cloneItems :: "nat \<Rightarrow> heap \<Rightarrow> hval list \<Rightarrow> (hval list \<times> heap) option"
where
  "h_cloneDeep 0 h v = None"
| "h_cloneDeep (Suc n) h v =
     (case v of
        HRef a \<Rightarrow>
          (case cell_at h a of
             Some (CObj kvs) \<Rightarrow>
               (case h_cloneProps n h kvs of
                  None \<Rightarrow> None
                | Some (kvs', h1) \<Rightarrow>
                    (case alloc h1 (h_initCloneObject h v) of
                       (r, h2) \<Rightarrow> Some (HRef r, fold (h_assignValue r) kvs' h2)))
           | Some (CObjP p kvs) \<Rightarrow>
               (case h_cloneProps n h kvs of
                  None \<Rightarrow> None
                | Some (kvs', h1) \<Rightarrow>
                    (case alloc h1 (h_initCloneObject h v) of
                       (r, h2) \<Rightarrow> Some (HRef r, fold (h_assignValue r) kvs' h2)))
           | Some (CArr xs) \<Rightarrow>
               (case h_cloneItems n h xs of
                  None \<Rightarrow> None
                | Some (xs', h1) \<Rightarrow> (case alloc h1 (CArr xs') of (r, h2) \<Rightarrow> Some (HRef r, h2)))
           | None \<Rightarrow> Some (v, h))
      | _ \<Rightarrow> Some (v, h))"
| "h_cloneProps n h [] = Some ([], h)"
| "h_cloneProps n h ((k, v) # rest) =
     (case h_cloneDeep n h v of
        None \<Rightarrow> None
      | Some (v', h1) \<Rightarrow>
          (case h_cloneProps n h1 rest of
             None \<Rightarrow> None
           | Some (rest', h2) \<Rightarrow> Some ((k, v') # rest', h2)))"
| "h_cloneItems n h [] = Some ([], h)"
| "h_cloneItems n h (v # rest) =
     (case h_cloneDeep n h v of
        None \<Rightarrow> None
      | Some (v', h1) \<Rightarrow>
          (case h_cloneItems n h1 rest of
             None \<Rightarrow> None
           | Some (rest', h2) \<Rightarrow> Some (v' # rest', h2)))"
  by pat_completeness auto
termination
  by (relation "inv_image (less_than <*lex*> less_than)
        (\<lambda>x. case x of
           Inl (n, h, v) \<Rightarrow> (n, 0)
         | Inr (Inl (n, h, kvs)) \<Rightarrow> (n, Suc (length kvs))
         | Inr (Inr (n, h, xs)) \<Rightarrow> (n, Suc (length xs)))")
     auto

record h_result =
  h_isSanitized :: bool
  h_target :: hval

text \<open>\<open>_sanitize\<close> on the store: the result and the store after the call.\<close>

definition h_sanitize :: "nat \<Rightarrow> hval \<Rightarrow> options \<Rightarrow> heap \<Rightarrow> (h_result \<times> heap) option" where
  "h_sanitize n obj opts h =
     (let e = closure_of opts;
          hasSanitized = False
      in case obj of
           HStr s \<Rightarrow>
             (let charRegex = (if c_allowDots e then NO_SQL_CHARS_TO_REPLACE
                               else DOT_NO_SQL_CHARS_TO_REPLACE)
              in if match s charRegex
                 then Some (\<lparr>h_isSanitized = True,
                             h_target = (if c_dryRun e then obj
                                         else HStr (replace s charRegex (c_replaceWith e)))\<rparr>, h)
                 else Some (\<lparr>h_isSanitized = hasSanitized, h_target = obj\<rparr>, h))
         | _ \<Rightarrow>
             (if \<not> h_isPlainObject h obj \<and> \<not> h_isArray h obj
              then Some (\<lparr>h_isSanitized = hasSanitized, h_target = obj\<rparr>, h)
              else (case h_cloneDeep n h obj of
                      None \<Rightarrow> None
                    | Some (clone, h1) \<Rightarrow>
                        (case h_recursiveSanitize n e clone (h1, hasSanitized) of
                           None \<Rightarrow> None
                         | Some (sanitizedTarget, h2, f) \<Rightarrow>
                             Some (\<lparr>h_isSanitized = f,
                                    h_target = (if c_dryRun e then obj else sanitizedTarget)\<rparr>,
                                   h2)))))"

text \<open>
  The tree a value of the store stands for, read to depth \<open>n\<close>: \<open>None\<close> when the data is
  deeper, cyclic, or refers to no cell.
\<close>

fun h_read :: "nat \<Rightarrow> heap \<Rightarrow> hval \<Rightarrow> jsval option"
  and h_readProps :: "nat \<Rightarrow> heap \<Rightarrow> (string \<times> hval) list \<Rightarrow> (string \<times> jsval) list option"
  and h_readItems :: "nat \<Rightarrow> heap \<Rightarrow> hval list \<Rightarrow> jsval list option"
where
  "h_read n h HUndefined = Some JUndefined"
| "h_read n h HNull = Some JNull"
| "h_read n h (HBool b) = Some (JBool b)"
| "h_read n h (HNum i) = Some (JNum i)"
| "h_read n h (HStr s) = Some (JStr s)"
| "h_read n h HObjectCtor = Some JObjectCtor"
| "h_read n h (HFunction m) = Some (JFunction m)"
| "h_read n h (HOther m) = Some (JOther m)"
| "h_read 0 h (HRef a) = None"
| "h_read (Suc n) h (HRef a) =
     (case cell_at h a of
        None \<Rightarrow> None
      | Some (CObj kvs) \<Rightarrow> map_option JObj (h_readProps n h kvs)
      | Some (CObjP p kvs) \<Rightarrow>
          (case h_read n h p of
             None \<Rightarrow> None
           | Some q \<Rightarrow> map_option (JObjP q) (h_readProps n h kvs))
      | Some (CArr xs) \<Rightarrow> map_option JArr (h_readItems n h xs))"
| "h_readProps n h [] = Some []"
| "h_readProps n h ((k, v) # rest) =
     (case h_read n h v of
        None \<Rightarrow> None
      | Some t \<Rightarrow> map_option ((#) (k, t)) (h_readProps n h rest))"
| "h_readItems n h [] = Some []"
| "h_readItems n h (v # rest) =
     (case h_read n h v of
        None \<Rightarrow> None
      | Some t \<Rightarrow> map_option ((#) t) (h_readItems n h rest))"

text \<open>The parts of a cell stand for trees of depth at most \<open>k\<close>.\<close>

fun readable_cell :: "nat \<Rightarrow> heap \<Rightarrow> cell \<Rightarrow> bool" where
  "readable_cell k h (CObj kvs) = (h_readProps k h kvs \<noteq> None)"
| "readable_cell k h (CObjP p kvs) = (h_read k h p \<noteq> None \<and> h_readProps k h kvs \<noteq> None)"
| "readable_cell k h (CArr xs) = (h_readItems k h xs \<noteq> None)"
text \<open>
  Reading a tree without going through the addresses of \<open>B\<close>: a result that can be read
  so does not depend on the cells at these addresses, which are the objects still under
  construction.
\<close>

fun h_readB :: "(addr \<Rightarrow> bool) \<Rightarrow> nat \<Rightarrow> heap \<Rightarrow> hval \<Rightarrow> jsval option"
  and h_readPropsB ::
    "(addr \<Rightarrow> bool) \<Rightarrow> nat \<Rightarrow> heap \<Rightarrow> (string \<times> hval) list \<Rightarrow> (string \<times> jsval) list option"
  and h_readItemsB :: "(addr \<Rightarrow> bool) \<Rightarrow> nat \<Rightarrow> heap \<Rightarrow> hval list \<Rightarrow> jsval list option"
where
  "h_readB B n h HUndefined = Some JUndefined"
| "h_readB B n h HNull = Some JNull"
| "h_readB B n h (HBool b) = Some (JBool b)"
| "h_readB B n h (HNum i) = Some (JNum i)"
| "h_readB B n h (HStr s) = Some (JStr s)"
| "h_readB B n h HObjectCtor = Some JObjectCtor"
| "h_readB B n h (HFunction m) = Some (JFunction m)"
| "h_readB B n h (HOther m) = Some (JOther m)"
| "h_readB B 0 h (HRef a) = None"
| "h_readB B (Suc n) h (HRef a) =
     (if B a then None
      else (case cell_at h a of
              None \<Rightarrow> None
            | Some (CObj kvs) \<Rightarrow> map_option JObj (h_readPropsB B n h kvs)
            | Some (CObjP p kvs) \<Rightarrow>
                (case h_readB B n h p of
                   None \<Rightarrow> None
                 | Some q \<Rightarrow> map_option (JObjP q) (h_readPropsB B n h kvs))
            | Some (CArr xs) \<Rightarrow> map_option JArr (h_readItemsB B n h xs)))"
| "h_readPropsB B n h [] = Some []"
| "h_readPropsB B n h ((k, v) # rest) =
     (case h_readB B n h v of
        None \<Rightarrow> None
      | Some t \<Rightarrow> map_option ((#) (k, t)) (h_readPropsB B n h rest))"
| "h_readItemsB B n h [] = Some []"
| "h_readItemsB B n h (v # rest) =
     (case h_readB B n h v of
        None \<Rightarrow> None
      | Some t \<Rightarrow> map_option ((#) t) (h_readItemsB B n h rest))"

text \<open>Every cell of \<open>h\<close> other than the one at \<open>L\<close> is the same in \<open>h'\<close>.\<close>

definition same_except :: "addr \<Rightarrow> heap \<Rightarrow> heap \<Rightarrow> bool" where
  "same_except L h h' = (\<forall>a c. a \<noteq> L \<longrightarrow> cell_at h a = Some c \<longrightarrow> cell_at h' a = Some c)"

section \<open>The three functions in closed form\<close>

lemma item_container:
  "isPlainObject v \<or> isArray v \<Longrightarrow> item_value e v = sanV e v"
  "isPlainObject v \<or> isArray v \<Longrightarrow> item_flag e v = flagV e v"
  by (simp_all add: item_value_def item_flag_def)

lemma item_string:
  "item_value e (JStr s) =
     (if match s (charRegex e) \<and> \<not> c_dryRun e
      then JStr (replace s (charRegex e) (c_replaceWith e)) else JStr s)"
  "item_flag e (JStr s) = (match s (charRegex e) \<and> \<not> c_dryRun e)"
  by (simp_all add: item_value_def item_flag_def)

lemma item_other:
  "\<not> isPlainObject v \<Longrightarrow> \<not> isArray v \<Longrightarrow> \<not> isString v \<Longrightarrow> item_value e v = v"
  "\<not> isPlainObject v \<Longrightarrow> \<not> isArray v \<Longrightarrow> \<not> isString v \<Longrightarrow> item_flag e v = False"
  by (cases v; simp add: item_value_def item_flag_def)+

lemma prop_pair:
  "prop_step e (k, v) newObj = obj_set newObj (newKey_of e k) (item_value e v)"
  "prop_flag e (k, v) = ((match k (charRegex e) \<and> \<not> c_dryRun e) \<or> item_flag e v)"
  by (simp_all add: prop_step_def prop_flag_def)

lemma items_char:
  assumes "\<And>v h. v \<in> set xs \<Longrightarrow> u_recursiveSanitize e v h = (sanV e v, h \<or> flagV e v)"
  shows "sanitizeItems e xs h = (map (item_value e) xs, h \<or> list_ex (item_flag e) xs)"
  using assms
proof (induction xs arbitrary: h)
  case Nil
  then show ?case by simp
next
  case (Cons x xs)
  have ih: "\<And>h. sanitizeItems e xs h = (map (item_value e) xs, h \<or> list_ex (item_flag e) xs)"
    using Cons by simp
  have hd: "\<And>h. u_recursiveSanitize e x h = (sanV e x, h \<or> flagV e x)"
    using Cons.prems by simp
  show ?case
  proof (cases "isPlainObject x \<or> isArray x")
    case True
    then show ?thesis
      by (simp add: ih hd item_container del: u_recursiveSanitize.simps)
  next
    case False
    then show ?thesis
      by (cases x) (auto simp: ih item_string item_other Let_def)
  qed
qed

lemma props_char:
  assumes "\<And>k v h. (k, v) \<in> set kvs \<Longrightarrow> u_recursiveSanitize e v h = (sanV e v, h \<or> flagV e v)"
  shows "sanitizeProps e kvs newObj h = (fold (prop_step e) kvs newObj, h \<or> list_ex (prop_flag e) kvs)"
  using assms
proof (induction kvs arbitrary: newObj h)
  case Nil
  then show ?case by simp
next
  case (Cons p kvs)
  obtain k v where p: "p = (k, v)" by (cases p)
  have ih: "\<And>newObj h. sanitizeProps e kvs newObj h = (fold (prop_step e) kvs newObj, h \<or> list_ex (prop_flag e) kvs)"
    by (rule Cons.IH) (use Cons.prems in auto)
  have hd: "\<And>h. u_recursiveSanitize e v h = (sanV e v, h \<or> flagV e v)"
    by (rule Cons.prems [of k]) (simp add: p)
  show ?case
  proof (cases "isPlainObject v \<or> isArray v")
    case True
    then show ?thesis unfolding p
      by (auto simp add: ih hd item_container prop_pair
            newKey_of_def Let_def simp del: u_recursiveSanitize.simps)
  next
    case False
    then show ?thesis unfolding p
      by (cases v) (auto simp: ih item_string item_other prop_pair
            newKey_of_def Let_def)
  qed
qed

lemma rec_char: "u_recursiveSanitize e v h = (sanV e v, h \<or> flagV e v)"
proof (induction v arbitrary: h)
  case (JArr xs)
  have "\<And>h. sanitizeItems e xs h = (map (item_value e) xs, h \<or> list_ex (item_flag e) xs)"
    by (rule items_char) (use JArr in auto)
  then show ?case by (simp add: sanV_def flagV_def)
next
  case (JObj kvs)
  have "\<And>newObj h. sanitizeProps e kvs newObj h = (fold (prop_step e) kvs newObj, h \<or> list_ex (prop_flag e) kvs)"
    by (rule props_char) (use JObj in force)
  then show ?case by (simp add: sanV_def flagV_def)
next
  case (JObjP q kvs)
  have "\<And>newObj h. sanitizeProps e kvs newObj h = (fold (prop_step e) kvs newObj, h \<or> list_ex (prop_flag e) kvs)"
    by (rule props_char) (use JObjP in force)
  then show ?case by (simp add: sanV_def flagV_def)
qed (simp_all add: sanV_def flagV_def)

lemma sanitizeItems_eq: "sanitizeItems e xs h = (map (item_value e) xs, h \<or> list_ex (item_flag e) xs)"
  by (rule items_char) (rule rec_char)

lemma sanitizeProps_eq:
  "sanitizeProps e kvs newObj h = (fold (prop_step e) kvs newObj, h \<or> list_ex (prop_flag e) kvs)"
  by (rule props_char) (rule rec_char)

lemma sanV_simps:
  "sanV e (JObj kvs) =
     (if isPlainObject (JObj kvs) then fold (prop_step e) kvs (JObj []) else JObj kvs)"
  "sanV e (JObjP q kvs) =
     (if isPlainObject (JObjP q kvs) then fold (prop_step e) kvs (JObj []) else JObjP q kvs)"
  "sanV e (JArr xs) = JArr (map (item_value e) xs)"
  "sanV e (JStr s) = JStr s"
  "sanV e JUndefined = JUndefined" "sanV e JNull = JNull" "sanV e (JBool b) = JBool b"
  "sanV e (JNum n) = JNum n" "sanV e JObjectCtor = JObjectCtor"
  "sanV e (JFunction m) = JFunction m" "sanV e (JOther m) = JOther m"
  by (simp_all add: sanV_def sanitizeItems_eq sanitizeProps_eq)

lemma flagV_simps:
  "flagV e (JObj kvs) = (isPlainObject (JObj kvs) \<and> list_ex (prop_flag e) kvs)"
  "flagV e (JObjP q kvs) = (isPlainObject (JObjP q kvs) \<and> list_ex (prop_flag e) kvs)"
  "flagV e (JArr xs) = list_ex (item_flag e) xs"
  "flagV e (JStr s) = False"
  "flagV e JUndefined = False" "flagV e JNull = False" "flagV e (JBool b) = False"
  "flagV e (JNum n) = False" "flagV e JObjectCtor = False"
  "flagV e (JFunction m) = False" "flagV e (JOther m) = False"
  by (simp_all add: flagV_def sanitizeItems_eq sanitizeProps_eq)

section \<open>Building the new object\<close>

lemma own_step_image: "own_step e p newObj = set_own newObj (fst (prop_image e p)) (snd (prop_image e p))"
  by (simp add: own_step_def prop_image_def)

lemma set_own_keys: "fst ` set (set_own newObj k v) = insert k (fst ` set newObj)"
proof (induction newObj)
  case Nil
  then show ?case by simp
next
  case (Cons p newObj)
  show ?case
  proof (cases "fst p = k")
    case True
    then show ?thesis by (cases p) auto
  next
    case False
    then show ?thesis using Cons by (cases p) auto
  qed
qed

lemma set_own_distinct: "distinct (map fst newObj) \<Longrightarrow> distinct (map fst (set_own newObj k v))"
proof (induction newObj)
  case Nil
  then show ?case by simp
next
  case (Cons p newObj)
  have "fst ` set (set_own newObj k v) = insert k (fst ` set newObj)"
    by (rule set_own_keys)
  with Cons show ?case by (cases p) auto
qed


lemma set_own_fresh: "k \<notin> fst ` set newObj \<Longrightarrow> set_own newObj k v = newObj @ [(k, v)]"
  by (induction newObj) auto

lemma set_set_own: "set (set_own newObj k v) \<subseteq> insert (k, v) (set newObj)"
  by (induction newObj) (auto split: if_splits)

lemma fold_keys:
  "fst ` set (fold (own_step e) kvs newObj) = fst ` set newObj \<union> newKey_of e ` fst ` set kvs"
proof (induction kvs arbitrary: newObj)
  case Nil
  then show ?case by simp
next
  case (Cons p kvs)
  have "fst ` set (own_step e p newObj) = insert (newKey_of e (fst p)) (fst ` set newObj)"
    by (simp add: own_step_image set_own_keys prop_image_def)
  then show ?case
    by (simp add: Cons.IH)
qed

lemma fold_distinct:
  "distinct (map fst newObj) \<Longrightarrow> distinct (map fst (fold (own_step e) kvs newObj))"
  by (induction kvs arbitrary: newObj) (simp_all add: own_step_image set_own_distinct)

lemma fold_set:
  "set (fold (own_step e) kvs newObj) \<subseteq> set newObj \<union> prop_image e ` set kvs"
proof (induction kvs arbitrary: newObj)
  case Nil
  then show ?case by simp
next
  case (Cons p kvs)
  have "set (fold (own_step e) kvs (own_step e p newObj))
          \<subseteq> set (own_step e p newObj) \<union> prop_image e ` set kvs"
    by (rule Cons.IH)
  moreover have "set (own_step e p newObj) \<subseteq> insert (prop_image e p) (set newObj)"
    using set_set_own [of newObj "fst (prop_image e p)" "snd (prop_image e p)"]
    by (simp add: own_step_image)
  ultimately show ?case by auto
qed


lemma fold_fix:
  "distinct (map fst kvs) \<Longrightarrow> \<forall>p \<in> set kvs. prop_image e p = p
     \<Longrightarrow> fst ` set newObj \<inter> fst ` set kvs = {}
     \<Longrightarrow> fold (own_step e) kvs newObj = newObj @ kvs"
proof (induction kvs arbitrary: newObj)
  case Nil
  then show ?case by simp
next
  case (Cons p kvs)
  have fixed: "prop_image e p = p" using Cons.prems by simp
  have fresh: "fst p \<notin> fst ` set newObj" using Cons.prems by auto
  have step: "own_step e p newObj = newObj @ [p]"
    using set_own_fresh [OF fresh, of "snd p"] by (simp add: own_step_image fixed)
  have "fold (own_step e) kvs (newObj @ [p]) = (newObj @ [p]) @ kvs"
  proof (rule Cons.IH)
    show "distinct (map fst kvs)" using Cons.prems by simp
    show "\<forall>p \<in> set kvs. prop_image e p = p" using Cons.prems by simp
    show "fst ` set (newObj @ [p]) \<inter> fst ` set kvs = {}"
      using Cons.prems by auto
  qed
  then show ?case by (simp add: step)
qed

section \<open>Assignments that touch no prototype\<close>

lemma newKey_proto: "newKey_of e ''__proto__'' = ''__proto__''"
  by (simp add: newKey_of_def match_def charRegex_def
        NO_SQL_CHARS_TO_REPLACE_def DOT_NO_SQL_CHARS_TO_REPLACE_def)

lemma obj_set_own: "k \<noteq> ''__proto__'' \<Longrightarrow> obj_set (JObj kvs) k v = JObj (set_own kvs k v)"
  by (simp add: obj_set_def)

lemma fold_prop_step_own:
  "\<forall>p \<in> set kvs. newKey_of e (fst p) \<noteq> ''__proto__''
   \<Longrightarrow> fold (prop_step e) kvs (JObj out) = JObj (fold (own_step e) kvs out)"
  by (induction kvs arbitrary: out) (simp_all add: prop_step_def own_step_def obj_set_own)

lemma fold_assign_fresh:
  "distinct (map fst kvs) \<Longrightarrow> ''__proto__'' \<notin> fst ` set kvs
   \<Longrightarrow> fst ` set out \<inter> fst ` set kvs = {}
   \<Longrightarrow> fold assignValue kvs (JObj out) = JObj (out @ kvs)"
proof (induction kvs arbitrary: out)
  case Nil
  then show ?case by simp
next
  case (Cons p kvs)
  have np: "fst p \<noteq> ''__proto__''" using Cons.prems by auto
  have fresh: "fst p \<notin> fst ` set out" using Cons.prems by auto
  have step: "assignValue p (JObj out) = JObj (out @ [p])"
    using np set_own_fresh [OF fresh, of "snd p"] by (simp add: assignValue_def obj_set_own)
  have "fold assignValue kvs (JObj (out @ [p])) = JObj ((out @ [p]) @ kvs)"
  proof (rule Cons.IH)
    show "distinct (map fst kvs)" using Cons.prems by simp
    show "''__proto__'' \<notin> fst ` set kvs" using Cons.prems by simp
    show "fst ` set (out @ [p]) \<inter> fst ` set kvs = {}" using Cons.prems by auto
  qed
  then show ?case by (simp add: step)
qed

lemma cloneDeep_id: "wf_val v \<Longrightarrow> proto_free e v \<Longrightarrow> cloneDeep v = v"
proof (induction v)
  case (JArr xs)
  then show ?case by (simp add: map_idI)
next
  case (JObj kvs)
  have "map (map_prod id cloneDeep) kvs = kvs"
  proof (rule map_idI)
    fix p assume p: "p \<in> set kvs"
    obtain k v where kv: "p = (k, v)" by (cases p)
    have "wf_val v" "proto_free e v" using JObj.prems p kv by auto
    then show "map_prod id cloneDeep p = p"
      using JObj.IH [of p v] p kv by simp
  qed
  moreover have "''__proto__'' \<notin> fst ` set kvs"
  proof
    assume "''__proto__'' \<in> fst ` set kvs"
    then obtain p where "p \<in> set kvs" "fst p = ''__proto__''" by auto
    then show False using JObj.prems(2) newKey_proto [of e] by auto
  qed
  moreover have "distinct (map fst kvs)" using JObj.prems by simp
  ultimately show ?case
    using fold_assign_fresh [of kvs "[]"] by (simp add: initCloneObject_def)
qed simp_all

lemma sanV_plain:
  "\<forall>p \<in> set kvs. newKey_of e (fst p) \<noteq> ''__proto__''
   \<Longrightarrow> sanV e (JObj kvs) =
         (if isPlainObject (JObj kvs) then JObj (fold (own_step e) kvs []) else JObj kvs)"
  by (simp add: sanV_simps fold_prop_step_own del: isPlainObject.simps)

section \<open>The engine by the shape of its input\<close>

lemma u_sanitize_string:
  "u_sanitize (JStr s) opts =
     (if match s (charRegex (closure_of opts))
      then \<lparr>isSanitized = True,
            target = (if c_dryRun (closure_of opts) then JStr s
                      else JStr (replace s (charRegex (closure_of opts))
                                   (c_replaceWith (closure_of opts))))\<rparr>
      else \<lparr>isSanitized = False, target = JStr s\<rparr>)"
  by (simp add: u_sanitize_def charRegex_def Let_def)

lemma u_sanitize_container:
  "isPlainObject obj \<or> isArray obj \<Longrightarrow>
   u_sanitize obj opts =
     \<lparr>isSanitized = flagV (closure_of opts) (cloneDeep obj),
      target = (if c_dryRun (closure_of opts) then obj
                else sanV (closure_of opts) (cloneDeep obj))\<rparr>"
  by (cases obj)
    (auto simp: u_sanitize_def Let_def rec_char simp del: u_recursiveSanitize.simps cloneDeep.simps)

lemma u_sanitize_data:
  "isPlainObject obj \<or> isArray obj \<Longrightarrow> wf_val obj \<Longrightarrow> proto_free (closure_of opts) obj \<Longrightarrow>
   u_sanitize obj opts =
     \<lparr>isSanitized = flagV (closure_of opts) obj,
      target = (if c_dryRun (closure_of opts) then obj else sanV (closure_of opts) obj)\<rparr>"
  by (simp add: u_sanitize_container cloneDeep_id [of obj "closure_of opts"])

lemma u_sanitize_other:
  "\<not> isString obj \<Longrightarrow> \<not> isPlainObject obj \<Longrightarrow> \<not> isArray obj \<Longrightarrow>
   u_sanitize obj opts = \<lparr>isSanitized = False, target = obj\<rparr>"
  by (cases obj) (auto simp: u_sanitize_def Let_def)

lemma charRegex_forbidden: "charRegex (closure_of opts) = forbidden opts"
  by (auto simp: charRegex_def closure_of_def forbidden_def fun_eq_iff
        NO_SQL_CHARS_TO_REPLACE_def DOT_NO_SQL_CHARS_TO_REPLACE_def split: option.splits)

lemma match_iff: "match s re = (\<exists>c \<in> set s. re c)"
  by (simp add: match_def list_ex_iff)

lemma item_flag_dryRun:
  "c_dryRun e \<Longrightarrow> item_flag e x = ((isPlainObject x \<or> isArray x) \<and> flagV e x)"
  by (cases x) (auto simp: item_flag_def)

lemma dryRun_flag: "c_dryRun e \<Longrightarrow> flagV e v = False"
proof (induction v)
  case (JArr xs)
  have "\<not> item_flag e x" if "x \<in> set xs" for x
    using that JArr by (simp add: item_flag_dryRun)
  then show ?case by (simp add: flagV_simps list_ex_iff)
next
  case (JObj kvs)
  have "\<not> prop_flag e p" if "p \<in> set kvs" for p
  proof -
    have "flagV e (snd p) = False" using JObj that by (cases p) auto
    then show ?thesis using JObj.prems by (simp add: prop_flag_def item_flag_dryRun)
  qed
  then show ?case by (simp add: flagV_simps list_ex_iff)
next
  case (JObjP q kvs)
  have "\<not> prop_flag e p" if "p \<in> set kvs" for p
  proof -
    have "flagV e (snd p) = False" using JObjP that by (cases p) auto
    then show ?thesis using JObjP.prems by (simp add: prop_flag_def item_flag_dryRun)
  qed
  then show ?case by (simp add: flagV_simps list_ex_iff)
qed (simp_all add: flagV_simps)

lemma has_eq: "has v = (\<exists>s. v = JStr s \<and> (CHR ''$'' \<in> set s \<or> CHR ''.'' \<in> set s))"
proof -
  have dr: "c_dryRun (closure_of (no_options\<lparr>dryRun := Some True\<rparr>))"
    by (simp add: closure_of_def)
  show ?thesis
  proof (cases "isString v")
    case True
    then obtain s where "v = JStr s" by (cases v) auto
    then show ?thesis
      by (auto simp: has_def u_sanitize_string charRegex_forbidden match_iff forbidden_def
            no_options_def)
  next
    case False
    then have "\<not> has v"
      using dr by (cases "isPlainObject v \<or> isArray v")
        (simp_all add: has_def u_sanitize_container u_sanitize_other dryRun_flag)
    with False show ?thesis by auto
  qed
qed

section \<open>Replacement strings without patterns\<close>

lemma getSubstitution_literal:
  "\<not> has_pattern r \<Longrightarrow> getSubstitution m b a r = r"
  by (induction m b a r rule: getSubstitution.induct) auto

lemma replace_from_literal:
  "\<not> has_pattern r \<Longrightarrow> replace_from re r b s = literal_replace re r s"
  by (induction s arbitrary: b) (simp_all add: literal_replace_def getSubstitution_literal)

lemma replace_literal: "\<not> has_pattern r \<Longrightarrow> replace s re r = literal_replace re r s"
  by (simp add: replace_def replace_from_literal)

lemma literal_replace_clean: "\<not> match s re \<Longrightarrow> literal_replace re r s = s"
  by (induction s) (simp_all add: literal_replace_def match_def)

section \<open>The flag\<close>




section \<open>The last entry of a key\<close>


lemma target_item_value:
  assumes nd: "\<not> c_dryRun (closure_of opts)"
    and wf: "wf_val T" and pf: "proto_free (closure_of opts) T"
  shows "target (u_sanitize T opts) = item_value (closure_of opts) T"
proof (cases "isString T")
  case True
  then obtain s where "T = JStr s" by (cases T) auto
  then show ?thesis using nd by (simp add: u_sanitize_string item_string)
next
  case False
  show ?thesis
  proof (cases "isPlainObject T \<or> isArray T")
    case True
    then show ?thesis using nd wf pf by (simp add: u_sanitize_data item_container)
  next
    case False
    with \<open>\<not> isString T\<close> show ?thesis by (simp add: u_sanitize_other item_other)
  qed
qed

section \<open>Sanitizing twice\<close>

lemma literal_replace_set:
  "set (literal_replace re r s) \<subseteq> set r \<union> {c \<in> set s. \<not> re c}"
  by (induction s) (auto simp: literal_replace_def)

lemma literal_replace_no_match:
  assumes "\<forall>c \<in> set r. \<not> re c"
  shows "\<not> match (literal_replace re r s) re"
proof
  assume "match (literal_replace re r s) re"
  then obtain c where c: "c \<in> set (literal_replace re r s)" "re c"
    unfolding match_iff by blast
  then have "c \<in> set r \<union> {c \<in> set s. \<not> re c}"
    using literal_replace_set by blast
  with c(2) assms show False by blast
qed


lemma newKey_idem:
  assumes "\<not> has_pattern (c_replaceWith e)" and "\<forall>c \<in> set (c_replaceWith e). \<not> charRegex e c"
  shows "newKey_of e (newKey_of e k) = newKey_of e k"
proof (cases "match k (charRegex e)")
  case True
  have "\<not> match (literal_replace (charRegex e) (c_replaceWith e) k) (charRegex e)"
    using assms(2) by (rule literal_replace_no_match)
  then show ?thesis using True assms(1) by (simp add: newKey_of_def replace_literal)
next
  case False
  then show ?thesis by (simp add: newKey_of_def)
qed

lemma item_value_plain:
  "\<forall>p \<in> set kvs. newKey_of e (fst p) \<noteq> ''__proto__''
   \<Longrightarrow> item_value e (JObj kvs) =
         (if isPlainObject (JObj kvs) then JObj (fold (own_step e) kvs []) else JObj kvs)"
  by (cases "isPlainObject (JObj kvs)")
    (simp_all add: item_container item_value_def sanV_plain del: isPlainObject.simps)

lemma item_value_wf:
  "wf_val v \<Longrightarrow> proto_free e v \<Longrightarrow> wf_val (item_value e v)"
proof (induction v)
  case (JArr xs)
  then show ?case by (simp add: item_container sanV_simps)
next
  case (JObj kvs)
  have keys: "\<forall>p \<in> set kvs. newKey_of e (fst p) \<noteq> ''__proto__''" using JObj.prems by simp
  let ?out = "fold (own_step e) kvs []"
  have "wf_val (snd q)" if "q \<in> set ?out" for q
  proof -
    from that fold_set [of e kvs "[]"] obtain p where p: "p \<in> set kvs" "q = prop_image e p"
      by auto
    have "snd p \<in> Basic_BNFs.snds p" by (cases p) simp
    moreover have "wf_val (snd p)" "proto_free e (snd p)" using JObj.prems p(1) by auto
    ultimately have "wf_val (item_value e (snd p))" using JObj.IH [OF p(1)] by simp
    then show ?thesis by (simp add: p(2) prop_image_def)
  qed
  moreover have "distinct (map fst ?out)" by (rule fold_distinct) simp
  ultimately have "wf_val (JObj ?out)" by simp
  then show ?case using JObj.prems(1) by (simp add: item_value_plain [OF keys] del: isPlainObject.simps)
qed (simp_all add: item_string item_value_def)

lemma item_value_proto_free:
  assumes "\<not> has_pattern (c_replaceWith e)" and "\<forall>c \<in> set (c_replaceWith e). \<not> charRegex e c"
  shows "proto_free e v \<Longrightarrow> proto_free e (item_value e v)"
proof (induction v)
  case (JArr xs)
  then show ?case by (simp add: item_container sanV_simps)
next
  case (JObj kvs)
  have keys: "\<forall>p \<in> set kvs. newKey_of e (fst p) \<noteq> ''__proto__''" using JObj.prems by simp
  let ?out = "fold (own_step e) kvs []"
  have "newKey_of e (fst q) \<noteq> ''__proto__'' \<and> proto_free e (snd q)" if "q \<in> set ?out" for q
  proof -
    from that fold_set [of e kvs "[]"] obtain p where p: "p \<in> set kvs" "q = prop_image e p"
      by auto
    have "snd p \<in> Basic_BNFs.snds p" by (cases p) simp
    moreover have "proto_free e (snd p)" using JObj.prems p(1) by auto
    ultimately have "proto_free e (item_value e (snd p))" using JObj.IH [OF p(1)] by simp
    moreover have "newKey_of e (newKey_of e (fst p)) \<noteq> ''__proto__''"
      using keys p(1) newKey_idem [OF assms] by simp
    ultimately show ?thesis by (simp add: p(2) prop_image_def)
  qed
  then have "proto_free e (JObj ?out)" by simp
  then show ?case using JObj.prems by (simp add: item_value_plain [OF keys] del: isPlainObject.simps)
qed (simp_all add: item_string item_value_def)

lemma item_value_idem:
  assumes "\<not> c_dryRun e" and "\<not> has_pattern (c_replaceWith e)"
    and "\<forall>c \<in> set (c_replaceWith e). \<not> charRegex e c"
  shows "proto_free e v \<Longrightarrow> item_value e (item_value e v) = item_value e v"
proof (induction v)
  case (JStr s)
  have "\<not> match (literal_replace (charRegex e) (c_replaceWith e) s) (charRegex e)"
    using assms(3) by (rule literal_replace_no_match)
  then show ?case
    using assms(1,2) by (simp add: item_string replace_literal)
next
  case (JArr xs)
  have "map (item_value e) (map (item_value e) xs) = map (item_value e) xs"
    using JArr by simp
  then show ?case by (simp add: sanV_simps item_container)
next
  case (JObj kvs)
  have keys: "\<forall>p \<in> set kvs. newKey_of e (fst p) \<noteq> ''__proto__''" using JObj.prems by simp
  let ?out = "fold (own_step e) kvs []"
  have fixed: "prop_image e q = q" if "q \<in> set ?out" for q
  proof -
    from that fold_set [of e kvs "[]"] obtain p where p: "p \<in> set kvs" "q = prop_image e p"
      by auto
    have "snd p \<in> Basic_BNFs.snds p" by (cases p) simp
    moreover have "proto_free e (snd p)" using JObj.prems p(1) by auto
    ultimately have "item_value e (item_value e (snd p)) = item_value e (snd p)"
      using JObj.IH [OF p(1)] by simp
    then show ?thesis
      using newKey_idem [OF assms(2,3)] by (simp add: p(2) prop_image_def)
  qed
  have okeys: "\<forall>q \<in> set ?out. newKey_of e (fst q) \<noteq> ''__proto__''"
  proof
    fix q assume q: "q \<in> set ?out"
    from q fold_set [of e kvs "[]"] obtain p where p: "p \<in> set kvs" "q = prop_image e p"
      by auto
    have "newKey_of e (fst q) = fst q" using fixed [OF q] by (simp add: prop_image_def) (metis fst_conv)
    moreover have "fst q \<noteq> ''__proto__''" using keys p by (simp add: prop_image_def)
    ultimately show "newKey_of e (fst q) \<noteq> ''__proto__''" by simp
  qed
  have dist: "distinct (map fst ?out)" by (rule fold_distinct) simp
  have "fold (own_step e) ?out [] = [] @ ?out"
    using dist fixed by (intro fold_fix) auto
  then have out: "item_value e (JObj ?out) = JObj ?out"
    by (simp add: item_value_plain [OF okeys] del: isPlainObject.simps)
  show ?case
  proof (cases "isPlainObject (JObj kvs)")
    case True
    then show ?thesis using out by (simp add: item_value_plain [OF keys] del: isPlainObject.simps)
  next
    case False
    then show ?thesis by (simp add: item_value_plain [OF keys] del: isPlainObject.simps)
  qed
qed (simp_all add: item_value_def)

section \<open>The shape of the output\<close>

lemma same_shape_refl: "same_shape f v v"
proof (induction v)
  case (JArr xs)
  then show ?case by (simp add: list_all2_same)
next
  case (JObj kvs)
  have "\<exists>p \<in> set kvs. (fst q = f (fst p) \<or> fst q = fst p) \<and> same_shape f (snd p) (snd q)"
    if "q \<in> set kvs" for q
  proof -
    have "snd q \<in> Basic_BNFs.snds q" by (cases q) simp
    then have "same_shape f (snd q) (snd q)" using JObj [OF that] by simp
    with that show ?thesis by blast
  qed
  then show ?case by simp
qed simp_all

lemma same_shape_obj:
  assumes "\<And>p. p \<in> set kvs \<Longrightarrow> same_shape (newKey_of e) (snd p) (item_value e (snd p))"
  shows "same_shape (newKey_of e) (JObj kvs) (JObj (fold (own_step e) kvs []))"
proof -
  let ?out = "fold (own_step e) kvs []"
  let ?f = "newKey_of e"
  let ?K = "fst ` set kvs"
  have keys: "fst ` set ?out = ?f ` ?K"
    using fold_keys [of e kvs "[]"] by simp
  have le: "card (fst ` set ?out) \<le> card ?K"
    unfolding keys by (rule card_image_le) simp
  have coll: "\<exists>p \<in> set kvs. \<exists>q \<in> set kvs. fst p \<noteq> fst q \<and> ?f (fst p) = ?f (fst q)"
    if less: "card (fst ` set ?out) < card ?K"
  proof (rule ccontr)
    assume "\<not> ?thesis"
    then have "inj_on ?f ?K" by (auto simp: inj_on_def)
    then have "card (?f ` ?K) = card ?K" by (rule card_image)
    with less keys show False by simp
  qed
  have vals: "\<exists>p \<in> set kvs. (fst q = ?f (fst p) \<or> fst q = fst p) \<and> same_shape ?f (snd p) (snd q)"
    if "q \<in> set ?out" for q
  proof -
    from that fold_set [of e kvs "[]"] obtain p where p: "p \<in> set kvs" "q = prop_image e p"
      by auto
    then have "fst q = ?f (fst p)" "same_shape ?f (snd p) (snd q)"
      using assms by (simp_all add: prop_image_def)
    with p(1) show ?thesis by blast
  qed
  show ?thesis using le coll vals by simp
qed

lemma same_shape_item:
  "proto_free e v \<Longrightarrow> same_shape (newKey_of e) v (item_value e v)"
proof (induction v)
  case (JArr xs)
  have "list_all2 (same_shape (newKey_of e)) xs (map (item_value e) xs)"
    using JArr by (simp add: list_all2_map2 list_all2_same)
  then show ?case by (simp add: sanV_simps item_container)
next
  case (JObj kvs)
  have keys: "\<forall>p \<in> set kvs. newKey_of e (fst p) \<noteq> ''__proto__''" using JObj.prems by simp
  have "same_shape (newKey_of e) (snd p) (item_value e (snd p))" if "p \<in> set kvs" for p
  proof -
    have "snd p \<in> Basic_BNFs.snds p" by (cases p) simp
    moreover have "proto_free e (snd p)" using JObj.prems that by auto
    ultimately show ?thesis using JObj.IH [OF that] by simp
  qed
  then have plain: "same_shape (newKey_of e) (JObj kvs) (JObj (fold (own_step e) kvs []))"
    by (rule same_shape_obj)
  show ?case
    using plain same_shape_refl [of "newKey_of e" "JObj kvs"]
    by (simp add: item_value_plain [OF keys] del: isPlainObject.simps same_shape.simps)
qed (simp_all add: item_string item_value_def)

section \<open>The output the specification describes\<close>




section \<open>The store: what a call leaves alone\<close>

lemma prefix_update: "prefix h0 h \<Longrightarrow> length h0 \<le> a \<Longrightarrow> prefix h0 (h[a := c])"
  by (auto simp: prefix_def list_update_append)

lemma prefix_set_prop: "prefix h0 h \<Longrightarrow> length h0 \<le> a \<Longrightarrow> prefix h0 (h_set_prop h a k v)"
  by (simp add: h_set_prop_def prefix_update split: option.splits cell.splits)

lemma prefix_set_item: "prefix h0 h \<Longrightarrow> length h0 \<le> a \<Longrightarrow> prefix h0 (h_set_item h a i v)"
  by (simp add: h_set_item_def prefix_update split: option.splits cell.splits)

lemma prefix_snoc: "prefix h0 h \<Longrightarrow> prefix h0 (h @ [c])"
  by (auto simp: prefix_def)

lemma props_frame:
  assumes rec: "\<And>v h f v' h' f'. h_recursiveSanitize n e v (h, f) = Some (v', h', f')
                  \<Longrightarrow> prefix h0 h \<Longrightarrow> prefix h0 h'"
    and "length h0 \<le> newObj"
  shows "h_sanitizeProps n e cur keys newObj (h, f) = Some (h', f') \<Longrightarrow> prefix h0 h
           \<Longrightarrow> prefix h0 h'"
proof (induction keys arbitrary: h f)
  case Nil
  then show ?case by simp
next
  case (Cons key keys)
  let ?val = "h_get h cur key"
  let ?newKey = "if match key (charRegex e) then replace key (charRegex e) (c_replaceWith e) else key"
  let ?f1 = "if match key (charRegex e) \<and> \<not> c_dryRun e then True else f"
  show ?case
  proof (cases "h_isPlainObject h ?val \<or> h_isArray h ?val")
    case True
    then obtain v h2 f2 where r: "h_recursiveSanitize n e ?val (h, ?f1) = Some (v, h2, f2)"
      and k: "h_sanitizeProps n e cur keys newObj (h_set_prop h2 newObj ?newKey v, f2) = Some (h', f')"
      using Cons.prems(1) by (auto simp: Let_def split: option.splits)
    have "prefix h0 h2" using rec [OF r] Cons.prems(2) by simp
    then have "prefix h0 (h_set_prop h2 newObj ?newKey v)"
      using assms(2) by (rule prefix_set_prop)
    then show ?thesis using Cons.IH [OF k] by simp
  next
    case False
    then obtain w f2 where
      k: "h_sanitizeProps n e cur keys newObj (h_set_prop h newObj ?newKey w, f2) = Some (h', f')"
      using Cons.prems(1) by (auto simp: Let_def split: hval.splits if_splits)
    have "prefix h0 (h_set_prop h newObj ?newKey w)"
      using Cons.prems(2) assms(2) by (rule prefix_set_prop)
    then show ?thesis using Cons.IH [OF k] by simp
  qed
qed

lemma items_frame:
  assumes rec: "\<And>v h f v' h' f'. h_recursiveSanitize n e v (h, f) = Some (v', h', f')
                  \<Longrightarrow> prefix h0 h \<Longrightarrow> prefix h0 h'"
    and "length h0 \<le> res"
  shows "h_sanitizeItems n e cur is res (h, f) = Some (h', f') \<Longrightarrow> prefix h0 h
           \<Longrightarrow> prefix h0 h'"
proof (induction "is" arbitrary: h f)
  case Nil
  then show ?case by simp
next
  case (Cons i "is")
  let ?item = "h_item h cur i"
  show ?case
  proof (cases "h_isPlainObject h ?item \<or> h_isArray h ?item")
    case True
    then obtain v h2 f2 where r: "h_recursiveSanitize n e ?item (h, f) = Some (v, h2, f2)"
      and k: "h_sanitizeItems n e cur is res (h_set_item h2 res i v, f2) = Some (h', f')"
      using Cons.prems(1) by (auto simp: Let_def split: option.splits)
    have "prefix h0 h2" using rec [OF r] Cons.prems(2) by simp
    then have "prefix h0 (h_set_item h2 res i v)"
      using assms(2) by (rule prefix_set_item)
    then show ?thesis using Cons.IH [OF k] by simp
  next
    case False
    then obtain w f2 where
      k: "h_sanitizeItems n e cur is res (h_set_item h res i w, f2) = Some (h', f')"
      using Cons.prems(1) by (auto simp: Let_def split: hval.splits if_splits)
    have "prefix h0 (h_set_item h res i w)"
      using Cons.prems(2) assms(2) by (rule prefix_set_item)
    then show ?thesis using Cons.IH [OF k] by simp
  qed
qed

lemma rec_frame:
  "h_recursiveSanitize n e v (h, f) = Some (v', h', f') \<Longrightarrow> prefix h0 h \<Longrightarrow> prefix h0 h'"
proof (induction n arbitrary: v h f v' h' f')
  case 0
  then show ?case by simp
next
  case (Suc n)
  have len: "length h0 \<le> length h" using Suc.prems(2) by (rule prefix_length_le)
  show ?case
  proof (cases "h_isPlainObject h v")
    case True
    then obtain a where a: "v = HRef a" by (cases v) auto
    from Suc.prems(1) True a obtain h2 where
      "h_sanitizeProps n e a (h_keys h a) (length h) (h @ [CObj []], f) = Some (h2, f')" "h' = h2"
      by (auto simp: alloc_def split: option.splits)
    then show ?thesis
      using props_frame [of n e h0 "length h" a "h_keys h a" "h @ [CObj []]" f h' f'] Suc.IH len
        prefix_snoc [OF Suc.prems(2)] by blast
  next
    case False
    show ?thesis
    proof (cases "h_isArray h v")
      case True
      then obtain a where a: "v = HRef a" by (cases v) auto
      from Suc.prems(1) True False a obtain h2 where
        "h_sanitizeItems n e a [0 ..< h_length h a] (length h)
           (h @ [CArr (replicate (h_length h a) HUndefined)], f) = Some (h2, f')" "h' = h2"
        by (auto simp: alloc_def split: option.splits)
      then show ?thesis
        using items_frame [of n e h0 "length h" a "[0 ..< h_length h a]"
            "h @ [CArr (replicate (h_length h a) HUndefined)]" f h' f'] Suc.IH len
          prefix_snoc [OF Suc.prems(2)] by blast
    next
      case False
      with \<open>\<not> h_isPlainObject h v\<close> Suc.prems show ?thesis by simp
    qed
  qed
qed


lemma cell_at_prefix: "prefix h h' \<Longrightarrow> cell_at h a = Some c \<Longrightarrow> cell_at h' a = Some c"
  by (auto simp: cell_at_def prefix_def nth_append split: if_splits)

lemma read_prefix:
  "prefix h h' \<Longrightarrow>
     (h_read k h v = Some t \<longrightarrow> h_read k h' v = Some t)
     \<and> (\<forall>kvs ts. h_readProps k h kvs = Some ts \<longrightarrow> h_readProps k h' kvs = Some ts)
     \<and> (\<forall>xs ts. h_readItems k h xs = Some ts \<longrightarrow> h_readItems k h' xs = Some ts)"
proof (induction k arbitrary: v t)
  case 0
  have r: "h_read 0 h v = Some t \<longrightarrow> h_read 0 h' v = Some t" for v t
    by (cases v) simp_all
  have p: "h_readProps 0 h kvs = Some ts \<longrightarrow> h_readProps 0 h' kvs = Some ts" for kvs ts
  proof (induction kvs arbitrary: ts)
    case Nil
    then show ?case by simp
  next
    case (Cons p kvs)
    then show ?case using r by (cases p) (auto split: option.splits)
  qed
  have i: "h_readItems 0 h xs = Some ts \<longrightarrow> h_readItems 0 h' xs = Some ts" for xs ts
  proof (induction xs arbitrary: ts)
    case Nil
    then show ?case by simp
  next
    case (Cons x xs)
    then show ?case using r by (auto split: option.splits)
  qed
  from r p i show ?case by blast
next
  case (Suc k)
  have ihr: "h_read k h v = Some t \<Longrightarrow> h_read k h' v = Some t" for v t
    using Suc.IH [OF Suc.prems] by blast
  have ihp: "h_readProps k h kvs = Some ts \<Longrightarrow> h_readProps k h' kvs = Some ts" for kvs ts
    using Suc.IH [OF Suc.prems] by blast
  have ihi: "h_readItems k h xs = Some ts \<Longrightarrow> h_readItems k h' xs = Some ts" for xs ts
    using Suc.IH [OF Suc.prems] by blast
  have r: "h_read (Suc k) h v = Some t \<longrightarrow> h_read (Suc k) h' v = Some t" for v t
  proof (cases v)
    case (HRef a)
    show ?thesis
    proof
      assume rd: "h_read (Suc k) h v = Some t"
      then obtain c where c: "cell_at h a = Some c"
        using HRef by (auto split: option.splits)
      then have c': "cell_at h' a = Some c" using Suc.prems by (rule cell_at_prefix [rotated])
      show "h_read (Suc k) h' v = Some t"
      proof (cases c)
        case (CObjP p kvs)
        from rd c HRef CObjP obtain q ts where q: "h_read k h p = Some q"
          and ts: "h_readProps k h kvs = Some ts" and t: "t = JObjP q ts"
          by (auto split: option.splits)
        show ?thesis using c' HRef CObjP ihr [OF q] ihp [OF ts] t by simp
      qed (use rd c c' HRef ihp ihi in auto)
    qed
  qed simp_all
  have p: "h_readProps (Suc k) h kvs = Some ts \<longrightarrow> h_readProps (Suc k) h' kvs = Some ts" for kvs ts
  proof (induction kvs arbitrary: ts)
    case Nil
    then show ?case by simp
  next
    case (Cons p kvs)
    then show ?case using r by (cases p) (auto split: option.splits simp del: h_read.simps)
  qed
  have i: "h_readItems (Suc k) h xs = Some ts \<longrightarrow> h_readItems (Suc k) h' xs = Some ts" for xs ts
  proof (induction xs arbitrary: ts)
    case Nil
    then show ?case by simp
  next
    case (Cons x xs)
    then show ?case using r by (auto split: option.splits simp del: h_read.simps)
  qed
  from r p i show ?case by blast
qed


lemma read_prefix_val: "prefix h h' \<Longrightarrow> h_read k h v = Some t \<Longrightarrow> h_read k h' v = Some t"
  using read_prefix by blast

lemma read_prefix_props:
  "prefix h h' \<Longrightarrow> h_readProps k h kvs = Some ts \<Longrightarrow> h_readProps k h' kvs = Some ts"
  using read_prefix [of h h' k HNull JNull] by blast

lemma read_prefix_items:
  "prefix h h' \<Longrightarrow> h_readItems k h xs = Some ts \<Longrightarrow> h_readItems k h' xs = Some ts"
  using read_prefix [of h h' k HNull JNull] by blast

lemma readProps_member:
  "h_readProps k h kvs = Some ts \<Longrightarrow> (key, v) \<in> set kvs \<Longrightarrow> \<exists>t. h_read k h v = Some t"
proof (induction kvs arbitrary: ts)
  case Nil
  then show ?case by simp
next
  case (Cons p kvs)
  then show ?case by (cases p) (auto split: option.splits)
qed

lemma readItems_member:
  "h_readItems k h xs = Some ts \<Longrightarrow> v \<in> set xs \<Longrightarrow> \<exists>t. h_read k h v = Some t"
proof (induction xs arbitrary: ts)
  case Nil
  then show ?case by simp
next
  case (Cons x xs)
  then show ?case by (auto split: option.splits)
qed

lemma fold_assign_prefix:
  "prefix h0 h \<Longrightarrow> length h0 \<le> r \<Longrightarrow> prefix h0 (fold (h_assignValue r) kvs h)"
  by (induction kvs arbitrary: h) (simp_all add: h_assignValue_def prefix_set_prop)

lemma clone_frame:
  "(h_cloneDeep n h v = Some (v', h') \<longrightarrow> prefix h h')
   \<and> (\<forall>h kvs kvs' h'. h_cloneProps n h kvs = Some (kvs', h') \<longrightarrow> prefix h h')
   \<and> (\<forall>h xs xs' h'. h_cloneItems n h xs = Some (xs', h') \<longrightarrow> prefix h h')"
proof (induction n arbitrary: h v v' h')
  case 0
  have p: "h_cloneProps 0 h kvs = Some (kvs', h') \<longrightarrow> prefix h h'" for h kvs kvs' h'
    by (cases kvs) auto
  have i: "h_cloneItems 0 h xs = Some (xs', h') \<longrightarrow> prefix h h'" for h xs xs' h'
    by (cases xs) auto
  from p i show ?case by simp
next
  case (Suc n)
  have ihp: "h_cloneProps n h kvs = Some (kvs', h') \<Longrightarrow> prefix h h'" for h kvs kvs' h'
    using Suc.IH by blast
  have ihi: "h_cloneItems n h xs = Some (xs', h') \<Longrightarrow> prefix h h'" for h xs xs' h'
    using Suc.IH by blast
  have obj: "prefix h h'"
    if cp: "h_cloneProps n h kvs = Some (kvs', h1)"
      and hh: "h' = fold (h_assignValue (length h1)) kvs' (h1 @ [c])"
    for h h' h1 kvs kvs' c
  proof -
    have "prefix h h1" using cp by (rule ihp)
    then have "prefix h (h1 @ [c])" by (rule prefix_snoc)
    moreover have "length h \<le> length h1" using \<open>prefix h h1\<close> by (rule prefix_length_le)
    ultimately show ?thesis unfolding hh by (rule fold_assign_prefix)
  qed
  have r: "h_cloneDeep (Suc n) h v = Some (v', h') \<longrightarrow> prefix h h'" for h v v' h'
  proof
    assume c: "h_cloneDeep (Suc n) h v = Some (v', h')"
    show "prefix h h'"
    proof (cases v)
      case (HRef a)
      show ?thesis
      proof (cases "cell_at h a")
        case None
        then show ?thesis using c HRef by simp
      next
        case (Some cl)
        show ?thesis
        proof (cases cl)
          case (CObj kvs)
          then obtain kvs' h1 where cp: "h_cloneProps n h kvs = Some (kvs', h1)"
            and hh: "h' = fold (h_assignValue (length h1)) kvs' (h1 @ [h_initCloneObject h v])"
            using c HRef Some by (auto simp: alloc_def split: option.splits)
          then show ?thesis by (rule obj)
        next
          case (CObjP p kvs)
          then obtain kvs' h1 where cp: "h_cloneProps n h kvs = Some (kvs', h1)"
            and hh: "h' = fold (h_assignValue (length h1)) kvs' (h1 @ [h_initCloneObject h v])"
            using c HRef Some by (auto simp: alloc_def split: option.splits)
          then show ?thesis by (rule obj)
        next
          case (CArr xs)
          then obtain xs' h1 where cp: "h_cloneItems n h xs = Some (xs', h1)"
            and hh: "h' = h1 @ [CArr xs']"
            using c HRef Some by (auto simp: alloc_def split: option.splits)
          have "prefix h h1" using cp by (rule ihi)
          then show ?thesis unfolding hh by (rule prefix_snoc)
        qed
      qed
    qed (use c in auto)
  qed
  have p: "h_cloneProps (Suc n) h kvs = Some (kvs', h') \<longrightarrow> prefix h h'" for h kvs kvs' h'
  proof (induction kvs arbitrary: h kvs')
    case Nil
    then show ?case by simp
  next
    case (Cons q kvs)
    obtain k w where q: "q = (k, w)" by (cases q)
    show ?case
    proof
      assume "h_cloneProps (Suc n) h (q # kvs) = Some (kvs', h')"
      then obtain w' h1 rest' where "h_cloneDeep (Suc n) h w = Some (w', h1)"
        "h_cloneProps (Suc n) h1 kvs = Some (rest', h')"
        unfolding q by (auto split: option.splits simp del: h_cloneDeep.simps)
      then have "prefix h h1" "prefix h1 h'" using r Cons.IH by blast+
      then show "prefix h h'" by (rule prefix_order.trans)
    qed
  qed
  have i: "h_cloneItems (Suc n) h xs = Some (xs', h') \<longrightarrow> prefix h h'" for h xs xs' h'
  proof (induction xs arbitrary: h xs')
    case Nil
    then show ?case by simp
  next
    case (Cons w xs)
    show ?case
    proof
      assume "h_cloneItems (Suc n) h (w # xs) = Some (xs', h')"
      then obtain w' h1 rest' where "h_cloneDeep (Suc n) h w = Some (w', h1)"
        "h_cloneItems (Suc n) h1 xs = Some (rest', h')"
        by (auto split: option.splits simp del: h_cloneDeep.simps)
      then have "prefix h h1" "prefix h1 h'" using r Cons.IH by blast+
      then show "prefix h h'" by (rule prefix_order.trans)
    qed
  qed
  from r p i show ?case by blast
qed

lemma clone_frame_val: "h_cloneDeep n h v = Some (v', h') \<Longrightarrow> prefix h h'"
  using clone_frame by blast


lemma cell_at_snoc: "cell_at (h @ [c]) (length h) = Some c"
  by (simp add: cell_at_def)

lemma read_cell:
  "(h_read (Suc k) h (HRef a) \<noteq> None) = (\<exists>c. cell_at h a = Some c \<and> readable_cell k h c)"
proof (cases "cell_at h a")
  case None
  then show ?thesis by simp
next
  case (Some c)
  then show ?thesis by (cases c) (auto split: option.splits)
qed

lemma readable_cell_prefix:
  "prefix h h' \<Longrightarrow> readable_cell k h c \<Longrightarrow> readable_cell k h' c"
proof (cases c)
  case (CObj kvs)
  assume "prefix h h'" "readable_cell k h c"
  then show ?thesis using CObj read_prefix_props [of h h' k kvs] by auto
next
  case (CObjP p kvs)
  assume "prefix h h'" "readable_cell k h c"
  then show ?thesis
    using CObjP read_prefix_props [of h h' k kvs] read_prefix_val [of h h' k p] by auto
next
  case (CArr xs)
  assume "prefix h h'" "readable_cell k h c"
  then show ?thesis using CArr read_prefix_items [of h h' k xs] by auto
qed

lemma readProps_set_own:
  "h_readProps k h kvs \<noteq> None \<Longrightarrow> h_read k h v \<noteq> None
   \<Longrightarrow> h_readProps k h (set_own kvs key v) \<noteq> None"
proof (induction kvs)
  case Nil
  then show ?case by auto
next
  case (Cons p kvs)
  obtain k' w where p: "p = (k', w)" by (cases p)
  from Cons.prems(1) have w: "h_read k h w \<noteq> None" and rest: "h_readProps k h kvs \<noteq> None"
    unfolding p by (auto split: option.splits)
  show ?case
  proof (cases "k' = key")
    case True
    then show ?thesis using Cons.prems(2) rest unfolding p by auto
  next
    case False
    then show ?thesis using w Cons.IH [OF rest Cons.prems(2)] unfolding p by auto
  qed
qed

lemma set_prop_readable:
  assumes c: "cell_at h r = Some c" and rc: "readable_cell k h1 c"
    and v: "h_read k h1 v \<noteq> None" and obj: "\<exists>kvs. c = CObj kvs \<or> (\<exists>p. c = CObjP p kvs)"
  shows "\<exists>c'. cell_at (h_set_prop h r key v) r = Some c' \<and> readable_cell k h1 c'
              \<and> (\<exists>kvs. c' = CObj kvs \<or> (\<exists>p. c' = CObjP p kvs))"
proof -
  have r: "r < length h" using c by (auto simp: cell_at_def split: if_splits)
  from obj consider kvs where "c = CObj kvs" | p kvs where "c = CObjP p kvs" by blast
  then show ?thesis
  proof cases
    case 1
    have own: "h_readProps k h1 (set_own kvs key v) \<noteq> None"
      using rc v 1 by (simp add: readProps_set_own)
    show ?thesis
      using c r rc v own 1 by (auto simp: h_set_prop_def cell_at_def)
  next
    case 2
    have own: "h_readProps k h1 (set_own kvs key v) \<noteq> None"
      using rc v 2 by (simp add: readProps_set_own)
    show ?thesis
      using c r rc v own 2 by (auto simp: h_set_prop_def cell_at_def)
  qed
qed

lemma fold_assign_readable:
  assumes rd: "h_readProps k h1 kvs \<noteq> None"
  shows "cell_at h r = Some c \<Longrightarrow> readable_cell k h1 c
         \<Longrightarrow> \<exists>kvs. c = CObj kvs \<or> (\<exists>p. c = CObjP p kvs)
         \<Longrightarrow> \<exists>c'. cell_at (fold (h_assignValue r) kvs h) r = Some c' \<and> readable_cell k h1 c'"
  using rd
proof (induction kvs arbitrary: h c)
  case Nil
  then show ?case by simp
next
  case (Cons q kvs)
  obtain key w where q: "q = (key, w)" by (cases q)
  from Cons.prems(4) have w: "h_read k h1 w \<noteq> None" and rest: "h_readProps k h1 kvs \<noteq> None"
    unfolding q by (auto split: option.splits)
  from set_prop_readable [OF Cons.prems(1,2) w Cons.prems(3), of key]
  obtain c' where c': "cell_at (h_set_prop h r key w) r = Some c'" "readable_cell k h1 c'"
    "\<exists>kvs. c' = CObj kvs \<or> (\<exists>p. c' = CObjP p kvs)" by blast
  from Cons.IH [OF c' rest] show ?case
    unfolding q by (simp add: h_assignValue_def)
qed

lemma clone_props_reads:
  assumes val: "\<And>h v t. h_read k h v = Some t \<Longrightarrow>
                  \<exists>v' h'. h_cloneDeep (Suc k) h v = Some (v', h') \<and> h_read k h' v' \<noteq> None"
  shows "h_readProps k h kvs = Some ts \<Longrightarrow>
           \<exists>kvs' h'. h_cloneProps (Suc k) h kvs = Some (kvs', h') \<and> h_readProps k h' kvs' \<noteq> None"
proof (induction kvs arbitrary: h ts)
  case Nil
  then show ?case by simp
next
  case (Cons q kvs)
  obtain key w where q: "q = (key, w)" by (cases q)
  from Cons.prems obtain t rest where t: "h_read k h w = Some t"
    and rest: "h_readProps k h kvs = Some rest" and ts: "ts = (key, t) # rest"
    unfolding q by (auto split: option.splits)
  from val [OF t] obtain w' h1 where c1: "h_cloneDeep (Suc k) h w = Some (w', h1)"
    and r1: "h_read k h1 w' \<noteq> None" by blast
  have p1: "prefix h h1" using c1 by (rule clone_frame_val)
  have "h_readProps k h1 kvs = Some rest" using p1 rest by (rule read_prefix_props)
  from Cons.IH [OF this] obtain rest' h2 where c2: "h_cloneProps (Suc k) h1 kvs = Some (rest', h2)"
    and r2: "h_readProps k h2 rest' \<noteq> None" by blast
  have "prefix h1 h2" using c2 clone_frame by blast
  then have "h_read k h2 w' \<noteq> None" using r1 read_prefix_val [of h1 h2 k w'] by auto
  then have "h_readProps k h2 ((key, w') # rest') \<noteq> None" using r2 by auto
  moreover have "h_cloneProps (Suc k) h (q # kvs) = Some ((key, w') # rest', h2)"
    unfolding q using c1 c2 by (simp del: h_cloneDeep.simps)
  ultimately show ?case by blast
qed

lemma clone_items_reads:
  assumes val: "\<And>h v t. h_read k h v = Some t \<Longrightarrow>
                  \<exists>v' h'. h_cloneDeep (Suc k) h v = Some (v', h') \<and> h_read k h' v' \<noteq> None"
  shows "h_readItems k h xs = Some ts \<Longrightarrow>
           \<exists>xs' h'. h_cloneItems (Suc k) h xs = Some (xs', h') \<and> h_readItems k h' xs' \<noteq> None"
proof (induction xs arbitrary: h ts)
  case Nil
  then show ?case by simp
next
  case (Cons w xs)
  from Cons.prems obtain t rest where t: "h_read k h w = Some t"
    and rest: "h_readItems k h xs = Some rest" and ts: "ts = t # rest"
    by (auto split: option.splits)
  from val [OF t] obtain w' h1 where c1: "h_cloneDeep (Suc k) h w = Some (w', h1)"
    and r1: "h_read k h1 w' \<noteq> None" by blast
  have p1: "prefix h h1" using c1 by (rule clone_frame_val)
  have "h_readItems k h1 xs = Some rest" using p1 rest by (rule read_prefix_items)
  from Cons.IH [OF this] obtain rest' h2 where c2: "h_cloneItems (Suc k) h1 xs = Some (rest', h2)"
    and r2: "h_readItems k h2 rest' \<noteq> None" by blast
  have "prefix h1 h2" using c2 clone_frame by blast
  then have "h_read k h2 w' \<noteq> None" using r1 read_prefix_val [of h1 h2 k w'] by auto
  then have "h_readItems k h2 (w' # rest') \<noteq> None" using r2 by auto
  moreover have "h_cloneItems (Suc k) h (w # xs) = Some (w' # rest', h2)"
    using c1 c2 by (simp del: h_cloneDeep.simps)
  ultimately show ?case by blast
qed

lemma initClone_readable:
  "h_read (Suc k) h v \<noteq> None \<Longrightarrow> prefix h h1 \<Longrightarrow> readable_cell k h1 (h_initCloneObject h v)
     \<and> (\<exists>kvs. h_initCloneObject h v = CObj kvs \<or> (\<exists>p. h_initCloneObject h v = CObjP p kvs))"
proof (cases v)
  case (HRef a)
  assume rd: "h_read (Suc k) h v \<noteq> None" and pre: "prefix h h1"
  then obtain c where c: "cell_at h a = Some c" "readable_cell k h c"
    using read_cell [of k h a] HRef by auto
  show ?thesis
  proof (cases c)
    case (CObjP p kvs)
    then have "h_read k h p \<noteq> None" using c by simp
    then have "h_read k h1 p \<noteq> None" using pre read_prefix_val [of h h1 k p] by auto
    then show ?thesis using HRef c CObjP by (auto simp: h_initCloneObject_def)
  qed (use HRef c in \<open>auto simp: h_initCloneObject_def\<close>)
qed (auto simp: h_initCloneObject_def)

lemma clone_object_reads:
  assumes cp: "h_cloneProps (Suc k) h kvs = Some (kvs', h1)"
    and rp: "h_readProps k h1 kvs' \<noteq> None"
    and rv: "h_read (Suc k) h v \<noteq> None"
  shows "h_read (Suc k) (fold (h_assignValue (length h1)) kvs' (h1 @ [h_initCloneObject h v]))
           (HRef (length h1)) \<noteq> None"
proof -
  let ?r = "length h1"
  let ?h2 = "h1 @ [h_initCloneObject h v]"
  let ?h3 = "fold (h_assignValue ?r) kvs' ?h2"
  have p1: "prefix h h1" using cp clone_frame by blast
  have init: "readable_cell k h1 (h_initCloneObject h v)"
    "\<exists>kvs. h_initCloneObject h v = CObj kvs \<or> (\<exists>p. h_initCloneObject h v = CObjP p kvs)"
    using initClone_readable [OF rv p1] by blast+
  have "cell_at ?h2 ?r = Some (h_initCloneObject h v)" by (rule cell_at_snoc)
  from fold_assign_readable [OF rp this init]
  obtain c' where c': "cell_at ?h3 ?r = Some c'" "readable_cell k h1 c'" by blast
  have "prefix h1 ?h2" by simp
  then have "prefix h1 ?h3" by (rule fold_assign_prefix) simp
  then have "readable_cell k ?h3 c'" using c'(2) by (rule readable_cell_prefix)
  then show ?thesis using c'(1) read_cell [of k ?h3 ?r] by blast
qed

lemma clone_reads:
  "h_read k h v = Some t \<Longrightarrow>
     \<exists>v' h'. h_cloneDeep (Suc k) h v = Some (v', h') \<and> h_read k h' v' \<noteq> None"
proof (induction k arbitrary: h v t)
  case 0
  then show ?case by (cases v) simp_all
next
  case (Suc k)
  show ?case
  proof (cases v)
    case (HRef a)
    from Suc.prems obtain c where c: "cell_at h a = Some c"
      unfolding HRef by (auto split: option.splits)
    have rv: "h_read (Suc k) h v \<noteq> None" using Suc.prems by simp
    have val: "\<exists>v' h'. h_cloneDeep (Suc k) h v = Some (v', h') \<and> h_read k h' v' \<noteq> None"
      if "h_read k h v = Some t" for h v t
      using that by (rule Suc.IH)
    have obj: ?thesis
      if ts: "h_readProps k h kvs = Some ts"
        and cl: "\<And>kvs' h1. h_cloneProps (Suc k) h kvs = Some (kvs', h1) \<Longrightarrow>
               h_cloneDeep (Suc (Suc k)) h v
                 = Some (HRef (length h1),
                         fold (h_assignValue (length h1)) kvs' (h1 @ [h_initCloneObject h v]))"
      for kvs ts
    proof -
      have "\<exists>kvs' h'. h_cloneProps (Suc k) h kvs = Some (kvs', h') \<and> h_readProps k h' kvs' \<noteq> None"
        using ts
      proof (rule clone_props_reads [rotated])
        fix h v t assume "h_read k h v = Some t"
        then show "\<exists>v' h'. h_cloneDeep (Suc k) h v = Some (v', h') \<and> h_read k h' v' \<noteq> None"
          by (rule val)
      qed
      then obtain kvs' h1 where c1: "h_cloneProps (Suc k) h kvs = Some (kvs', h1)"
        and r1: "h_readProps k h1 kvs' \<noteq> None" by blast
      have "h_read (Suc k) (fold (h_assignValue (length h1)) kvs' (h1 @ [h_initCloneObject h v]))
              (HRef (length h1)) \<noteq> None"
        using c1 r1 rv by (rule clone_object_reads)
      then show ?thesis using cl [OF c1] by blast
    qed
    show ?thesis
    proof (cases c)
      case (CObj kvs)
      then obtain ts where ts: "h_readProps k h kvs = Some ts"
        using Suc.prems c unfolding HRef by auto
      show ?thesis
        using ts
      proof (rule obj)
        fix kvs' h1 assume "h_cloneProps (Suc k) h kvs = Some (kvs', h1)"
        then show "h_cloneDeep (Suc (Suc k)) h v
                 = Some (HRef (length h1),
                         fold (h_assignValue (length h1)) kvs' (h1 @ [h_initCloneObject h v]))"
          using c CObj unfolding HRef by (simp add: alloc_def del: h_cloneProps.simps)
      qed
    next
      case (CObjP p kvs)
      then obtain ts where ts: "h_readProps k h kvs = Some ts"
        using Suc.prems c unfolding HRef by (auto split: option.splits)
      show ?thesis
        using ts
      proof (rule obj)
        fix kvs' h1 assume "h_cloneProps (Suc k) h kvs = Some (kvs', h1)"
        then show "h_cloneDeep (Suc (Suc k)) h v
                 = Some (HRef (length h1),
                         fold (h_assignValue (length h1)) kvs' (h1 @ [h_initCloneObject h v]))"
          using c CObjP unfolding HRef by (simp add: alloc_def del: h_cloneProps.simps)
      qed
    next
      case (CArr xs)
      then obtain ts where ts: "h_readItems k h xs = Some ts" and t: "t = JArr ts"
        using Suc.prems c unfolding HRef by auto
      have "\<exists>xs' h'. h_cloneItems (Suc k) h xs = Some (xs', h') \<and> h_readItems k h' xs' \<noteq> None"
        using ts
      proof (rule clone_items_reads [rotated])
        fix h v t assume "h_read k h v = Some t"
        then show "\<exists>v' h'. h_cloneDeep (Suc k) h v = Some (v', h') \<and> h_read k h' v' \<noteq> None"
          by (rule val)
      qed
      then obtain xs' h1 where c1: "h_cloneItems (Suc k) h xs = Some (xs', h1)"
        and r1: "h_readItems k h1 xs' \<noteq> None" by blast
      have "h_readItems k (h1 @ [CArr xs']) xs' \<noteq> None"
        using r1 read_prefix_items [of h1 "h1 @ [CArr xs']" k xs'] by auto
      then have "h_read (Suc k) (h1 @ [CArr xs']) (HRef (length h1)) \<noteq> None"
        by (auto simp: cell_at_snoc)
      moreover have "h_cloneDeep (Suc (Suc k)) h v = Some (HRef (length h1), h1 @ [CArr xs'])"
        using c c1 CArr unfolding HRef by (simp add: alloc_def del: h_cloneItems.simps)
      ultimately show ?thesis by blast
    qed
  qed (use Suc.prems in simp_all)
qed

lemma props_step_leaf:
  assumes "\<not> (h_isPlainObject h (h_get h cur key) \<or> h_isArray h (h_get h cur key))"
  shows "\<exists>w f2. h_sanitizeProps n e cur (key # keys) newObj (h, f)
           = h_sanitizeProps n e cur keys newObj
               (h_set_prop h newObj
                  (if match key (charRegex e) then replace key (charRegex e) (c_replaceWith e)
                   else key) w, f2)"
proof (cases "h_get h cur key")
  case (HStr s)
  show ?thesis
  proof (cases "match s (charRegex e) \<and> \<not> c_dryRun e")
    case True
    then have "h_sanitizeProps n e cur (key # keys) newObj (h, f)
           = h_sanitizeProps n e cur keys newObj
               (h_set_prop h newObj
                  (if match key (charRegex e) then replace key (charRegex e) (c_replaceWith e)
                   else key) (HStr (replace s (charRegex e) (c_replaceWith e))), True)"
      using HStr by (simp add: Let_def)
    then show ?thesis by blast
  next
    case False
    then have "h_sanitizeProps n e cur (key # keys) newObj (h, f)
           = h_sanitizeProps n e cur keys newObj
               (h_set_prop h newObj
                  (if match key (charRegex e) then replace key (charRegex e) (c_replaceWith e)
                   else key) (HStr s),
                if match key (charRegex e) \<and> \<not> c_dryRun e then True else f)"
      using HStr by (auto simp: Let_def)
    then show ?thesis by blast
  qed
qed (use assms in \<open>auto simp: Let_def simp del: h_recursiveSanitize.simps\<close>)

lemma items_step_leaf:
  assumes "\<not> (h_isPlainObject h (h_item h cur i) \<or> h_isArray h (h_item h cur i))"
  shows "\<exists>w f2. h_sanitizeItems n e cur (i # is) res (h, f)
           = h_sanitizeItems n e cur is res (h_set_item h res i w, f2)"
proof (cases "h_item h cur i")
  case (HStr s)
  show ?thesis
  proof (cases "match s (charRegex e) \<and> \<not> c_dryRun e")
    case True
    then have "h_sanitizeItems n e cur (i # is) res (h, f)
           = h_sanitizeItems n e cur is res
               (h_set_item h res i (HStr (replace s (charRegex e) (c_replaceWith e))), True)"
      using HStr by (simp add: Let_def)
    then show ?thesis by blast
  next
    case False
    then have "h_sanitizeItems n e cur (i # is) res (h, f)
           = h_sanitizeItems n e cur is res (h_set_item h res i (HStr s), f)"
      using HStr by (auto simp: Let_def)
    then show ?thesis by blast
  qed
qed (use assms in \<open>auto simp: Let_def simp del: h_recursiveSanitize.simps\<close>)

lemma props_returns:
  assumes rec: "\<And>v t h f. h_read k hb v = Some t \<Longrightarrow> prefix hb h
                  \<Longrightarrow> \<exists>r. h_recursiveSanitize (Suc k) e v (h, f) = Some r"
    and cell: "cell_at hb cur = Some (CObj kvs) \<or> (\<exists>p. cell_at hb cur = Some (CObjP p kvs))"
    and rd: "h_readProps k hb kvs = Some ts"
    and new: "length hb \<le> newObj"
  shows "prefix hb h \<Longrightarrow> \<exists>r. h_sanitizeProps (Suc k) e cur keys newObj (h, f) = Some r"
proof (induction keys arbitrary: h f)
  case Nil
  then show ?case by simp
next
  case (Cons key keys)
  let ?val = "h_get h cur key"
  let ?newKey = "if match key (charRegex e) then replace key (charRegex e) (c_replaceWith e) else key"
  let ?f1 = "if match key (charRegex e) \<and> \<not> c_dryRun e then True else f"
  have cur: "cell_at h cur = Some (CObj kvs) \<or> (\<exists>p. cell_at h cur = Some (CObjP p kvs))"
    using Cons.prems cell cell_at_prefix by blast
  show ?case
  proof (cases "h_isPlainObject h ?val \<or> h_isArray h ?val")
    case True
    then obtain b where b: "?val = HRef b" by (cases ?val) auto
    then have "map_of kvs key = Some ?val"
      using cur by (auto simp: h_get_def split: option.splits)
    then have "(key, ?val) \<in> set kvs" by (rule map_of_SomeD)
    with rd obtain t where "h_read k hb ?val = Some t" using readProps_member by blast
    from rec [OF this Cons.prems, of ?f1] obtain v h2 f2 where
      r: "h_recursiveSanitize (Suc k) e ?val (h, ?f1) = Some (v, h2, f2)"
      by (metis prod_cases3)
    have "prefix hb h2" using r Cons.prems by (rule rec_frame)
    then have "prefix hb (h_set_prop h2 newObj ?newKey v)" using new by (rule prefix_set_prop)
    from Cons.IH [OF this, of f2] obtain r' where
      "h_sanitizeProps (Suc k) e cur keys newObj (h_set_prop h2 newObj ?newKey v, f2) = Some r'"
      by blast
    then show ?thesis
      using True r by (simp add: Let_def del: h_recursiveSanitize.simps)
  next
    case False
    then obtain w f2 where step: "h_sanitizeProps (Suc k) e cur (key # keys) newObj (h, f)
        = h_sanitizeProps (Suc k) e cur keys newObj (h_set_prop h newObj ?newKey w, f2)"
      using props_step_leaf by blast
    have "prefix hb (h_set_prop h newObj ?newKey w)" using Cons.prems new by (rule prefix_set_prop)
    from Cons.IH [OF this, of f2] show ?thesis unfolding step .
  qed
qed

lemma items_returns:
  assumes rec: "\<And>v t h f. h_read k hb v = Some t \<Longrightarrow> prefix hb h
                  \<Longrightarrow> \<exists>r. h_recursiveSanitize (Suc k) e v (h, f) = Some r"
    and cell: "cell_at hb cur = Some (CArr xs)"
    and rd: "h_readItems k hb xs = Some ts"
    and new: "length hb \<le> res"
  shows "prefix hb h \<Longrightarrow> \<exists>r. h_sanitizeItems (Suc k) e cur is res (h, f) = Some r"
proof (induction "is" arbitrary: h f)
  case Nil
  then show ?case by simp
next
  case (Cons i "is")
  let ?item = "h_item h cur i"
  have cur: "cell_at h cur = Some (CArr xs)" using Cons.prems cell by (rule cell_at_prefix)
  show ?case
  proof (cases "h_isPlainObject h ?item \<or> h_isArray h ?item")
    case True
    then obtain b where b: "?item = HRef b" by (cases ?item) auto
    then have "i < length xs \<and> xs ! i = ?item"
      using cur by (auto simp: h_item_def split: if_splits)
    then have "?item \<in> set xs" by (metis nth_mem)
    with rd obtain t where "h_read k hb ?item = Some t" using readItems_member by blast
    from rec [OF this Cons.prems, of f] obtain v h2 f2 where
      r: "h_recursiveSanitize (Suc k) e ?item (h, f) = Some (v, h2, f2)"
      by (metis prod_cases3)
    have "prefix hb h2" using r Cons.prems by (rule rec_frame)
    then have "prefix hb (h_set_item h2 res i v)" using new by (rule prefix_set_item)
    from Cons.IH [OF this, of f2] obtain r' where
      "h_sanitizeItems (Suc k) e cur is res (h_set_item h2 res i v, f2) = Some r'"
      by blast
    then show ?thesis
      using True r by (simp add: Let_def del: h_recursiveSanitize.simps)
  next
    case False
    then obtain w f2 where step: "h_sanitizeItems (Suc k) e cur (i # is) res (h, f)
        = h_sanitizeItems (Suc k) e cur is res (h_set_item h res i w, f2)"
      using items_step_leaf by blast
    have "prefix hb (h_set_item h res i w)" using Cons.prems new by (rule prefix_set_item)
    from Cons.IH [OF this, of f2] show ?thesis unfolding step .
  qed
qed

lemma rec_returns:
  "h_read k hb v = Some t \<Longrightarrow> prefix hb h \<Longrightarrow> \<exists>r. h_recursiveSanitize (Suc k) e v (h, f) = Some r"
proof (induction k arbitrary: v t h f)
  case 0
  then show ?case by (cases v) simp_all
next
  case (Suc k)
  show ?case
  proof (cases v)
    case (HRef a)
    from Suc.prems(1) obtain c where cb: "cell_at hb a = Some c"
      unfolding HRef by (auto split: option.splits)
    then have ch: "cell_at h a = Some c" using Suc.prems(2) by (rule cell_at_prefix [rotated])
    have len: "length hb \<le> length h" using Suc.prems(2) by (rule prefix_length_le)
    show ?thesis
    proof (cases c)
      case (CObj kvs)
      then obtain ts where ts: "h_readProps k hb kvs = Some ts"
        using Suc.prems(1) cb unfolding HRef by auto
      have cell: "cell_at hb a = Some (CObj kvs) \<or> (\<exists>p. cell_at hb a = Some (CObjP p kvs))"
        using cb CObj by simp
      have "\<exists>r. h_sanitizeProps (Suc k) e a (h_keys h a) (length h) (h @ [CObj []], f) = Some r"
        using Suc.IH cell ts len
      proof (rule props_returns)
        show "prefix hb (h @ [CObj []])" using Suc.prems(2) by (rule prefix_snoc)
      qed
      then show ?thesis
        using ch CObj unfolding HRef
        by (auto simp: alloc_def simp del: h_sanitizeProps.simps)
    next
      case (CObjP p kvs)
      then obtain ts where ts: "h_readProps k hb kvs = Some ts"
        using Suc.prems(1) cb unfolding HRef by (auto split: option.splits)
      have cell: "cell_at hb a = Some (CObj kvs) \<or> (\<exists>p. cell_at hb a = Some (CObjP p kvs))"
        using cb CObjP by simp
      have "\<exists>r. h_sanitizeProps (Suc k) e a (h_keys h a) (length h) (h @ [CObj []], f) = Some r"
        using Suc.IH cell ts len
      proof (rule props_returns)
        show "prefix hb (h @ [CObj []])" using Suc.prems(2) by (rule prefix_snoc)
      qed
      then show ?thesis
        using ch CObjP unfolding HRef
        by (auto simp: alloc_def simp del: h_sanitizeProps.simps h_get_constructor.simps)
    next
      case (CArr xs)
      then obtain ts where ts: "h_readItems k hb xs = Some ts"
        using Suc.prems(1) cb unfolding HRef by auto
      have "\<exists>r. h_sanitizeItems (Suc k) e a [0 ..< h_length h a] (length h)
                  (h @ [CArr (replicate (h_length h a) HUndefined)], f) = Some r"
        using Suc.IH cb [unfolded CArr] ts len
      proof (rule items_returns)
        show "prefix hb (h @ [CArr (replicate (h_length h a) HUndefined)])"
          using Suc.prems(2) by (rule prefix_snoc)
      qed
      then show ?thesis
        using ch CArr unfolding HRef
        by (auto simp: alloc_def simp del: h_sanitizeItems.simps)
    qed
  qed simp_all
qed

lemma h_sanitize_frame: "h_sanitize n obj opts h = Some (r, h') \<Longrightarrow> prefix h h'"
proof -
  assume s: "h_sanitize n obj opts h = Some (r, h')"
  show ?thesis
  proof (cases "h_isPlainObject h obj \<or> h_isArray h obj")
    case False
    then have "h' = h" using s by (cases obj) (auto simp: h_sanitize_def Let_def split: if_splits)
    then show ?thesis by simp
  next
    case True
    then obtain a where a: "obj = HRef a" by (cases obj) auto
    from s True obtain clone h1 v f where c: "h_cloneDeep n h obj = Some (clone, h1)"
      and rs: "h_recursiveSanitize n (closure_of opts) clone (h1, False) = Some (v, h', f)"
      unfolding a by (auto simp: h_sanitize_def Let_def split: option.splits if_splits)
    have "prefix h h1" using c by (rule clone_frame_val)
    then show ?thesis using rs rec_frame by blast
  qed
qed

lemma h_sanitize_returns:
  assumes "h_read k h obj = Some t"
  shows "\<exists>r h'. h_sanitize (Suc k) obj opts h = Some (r, h')"
proof (cases "h_isPlainObject h obj \<or> h_isArray h obj")
  case False
  then show ?thesis by (cases obj) (auto simp: h_sanitize_def Let_def)
next
  case True
  then obtain a where a: "obj = HRef a" by (cases obj) auto
  from clone_reads [OF assms] obtain clone h1 t' where c: "h_cloneDeep (Suc k) h obj = Some (clone, h1)"
    and r: "h_read k h1 clone = Some t'" by blast
  from rec_returns [OF r, of h1 "closure_of opts" False]
  obtain v h2 f where "h_recursiveSanitize (Suc k) (closure_of opts) clone (h1, False) = Some (v, h2, f)"
    by (metis prefix_order.refl prod_cases3)
  then show ?thesis
    using True c unfolding a
    by (auto simp: h_sanitize_def Let_def simp del: h_cloneDeep.simps h_recursiveSanitize.simps)
qed

section \<open>The store: the engine computes what it computes on trees\<close>

lemma plain_data_simps [simp]:
  "plain_data e (JArr xs) = (\<forall>x \<in> set xs. plain_data e x)"
  "plain_data e (JObj kvs) =
     (distinct (map fst kvs)
      \<and> (\<forall>p \<in> set kvs. newKey_of e (fst p) \<noteq> ''__proto__'' \<and> plain_data e (snd p)))"
  "plain_data e (JObjP q kvs) = False"
  "plain_data e (JStr s) = True" "plain_data e JUndefined = True" "plain_data e JNull = True"
  "plain_data e (JBool b) = True" "plain_data e (JNum n) = True"
  "plain_data e JObjectCtor = True" "plain_data e (JFunction m) = True"
  "plain_data e (JOther m) = True"
  by (auto simp: plain_data_def)

lemma own_pair: "own_step e (k, v) out = set_own out (newKey_of e k) (item_value e v)"
  by (simp add: own_step_def)

lemma readProps_keys: "h_readProps k h kvs = Some ts \<Longrightarrow> map fst kvs = map fst ts"
proof (induction kvs arbitrary: ts)
  case Nil
  then show ?case by simp
next
  case (Cons p kvs)
  then show ?case by (cases p) (auto split: option.splits)
qed

lemma fold_h_assign_fresh:
  "distinct (map fst kvs) \<Longrightarrow> ''__proto__'' \<notin> fst ` set kvs
   \<Longrightarrow> fst ` set out \<inter> fst ` set kvs = {}
   \<Longrightarrow> fold (h_assignValue (length h1)) kvs (h1 @ [CObj out]) = h1 @ [CObj (out @ kvs)]"
proof (induction kvs arbitrary: out)
  case Nil
  then show ?case by simp
next
  case (Cons p kvs)
  have np: "fst p \<noteq> ''__proto__''" using Cons.prems by auto
  have fresh: "fst p \<notin> fst ` set out" using Cons.prems by auto
  have step: "h_assignValue (length h1) p (h1 @ [CObj out]) = h1 @ [CObj (out @ [p])]"
    using np set_own_fresh [OF fresh, of "snd p"]
    by (simp add: h_assignValue_def h_set_prop_def cell_at_def)
  have "fold (h_assignValue (length h1)) kvs (h1 @ [CObj (out @ [p])])
          = h1 @ [CObj ((out @ [p]) @ kvs)]"
  proof (rule Cons.IH)
    show "distinct (map fst kvs)" using Cons.prems by simp
    show "''__proto__'' \<notin> fst ` set kvs" using Cons.prems by simp
    show "fst ` set (out @ [p]) \<inter> fst ` set kvs = {}" using Cons.prems by auto
  qed
  then show ?case by (simp add: step)
qed

lemma clone_props_reads_eq:
  assumes val: "\<And>h v t. h_read k h v = Some t \<Longrightarrow> plain_data e t \<Longrightarrow>
                  \<exists>v' h'. h_cloneDeep (Suc k) h v = Some (v', h') \<and> h_read k h' v' = Some t"
  shows "h_readProps k h kvs = Some ts \<Longrightarrow> \<forall>q \<in> set ts. plain_data e (snd q) \<Longrightarrow>
           \<exists>kvs' h'. h_cloneProps (Suc k) h kvs = Some (kvs', h') \<and> h_readProps k h' kvs' = Some ts"
proof (induction kvs arbitrary: h ts)
  case Nil
  then show ?case by simp
next
  case (Cons q kvs)
  obtain key w where q: "q = (key, w)" by (cases q)
  from Cons.prems(1) obtain t rest where t: "h_read k h w = Some t"
    and rest: "h_readProps k h kvs = Some rest" and ts: "ts = (key, t) # rest"
    unfolding q by (auto split: option.splits)
  have pd: "plain_data e t" "\<forall>q \<in> set rest. plain_data e (snd q)"
    using Cons.prems(2) ts by auto
  from val [OF t pd(1)] obtain w' h1 where c1: "h_cloneDeep (Suc k) h w = Some (w', h1)"
    and r1: "h_read k h1 w' = Some t" by blast
  have p1: "prefix h h1" using c1 by (rule clone_frame_val)
  have "h_readProps k h1 kvs = Some rest" using p1 rest by (rule read_prefix_props)
  from Cons.IH [OF this pd(2)] obtain rest' h2 where
    c2: "h_cloneProps (Suc k) h1 kvs = Some (rest', h2)"
    and r2: "h_readProps k h2 rest' = Some rest" by blast
  have "prefix h1 h2" using c2 clone_frame by blast
  then have "h_read k h2 w' = Some t" using r1 by (rule read_prefix_val)
  then have "h_readProps k h2 ((key, w') # rest') = Some ts" using r2 ts by simp
  moreover have "h_cloneProps (Suc k) h (q # kvs) = Some ((key, w') # rest', h2)"
    unfolding q using c1 c2 by (simp del: h_cloneDeep.simps)
  ultimately show ?case by blast
qed

lemma clone_items_reads_eq:
  assumes val: "\<And>h v t. h_read k h v = Some t \<Longrightarrow> plain_data e t \<Longrightarrow>
                  \<exists>v' h'. h_cloneDeep (Suc k) h v = Some (v', h') \<and> h_read k h' v' = Some t"
  shows "h_readItems k h xs = Some ts \<Longrightarrow> \<forall>t \<in> set ts. plain_data e t \<Longrightarrow>
           \<exists>xs' h'. h_cloneItems (Suc k) h xs = Some (xs', h') \<and> h_readItems k h' xs' = Some ts"
proof (induction xs arbitrary: h ts)
  case Nil
  then show ?case by simp
next
  case (Cons w xs)
  from Cons.prems(1) obtain t rest where t: "h_read k h w = Some t"
    and rest: "h_readItems k h xs = Some rest" and ts: "ts = t # rest"
    by (auto split: option.splits)
  have pd: "plain_data e t" "\<forall>t \<in> set rest. plain_data e t"
    using Cons.prems(2) ts by auto
  from val [OF t pd(1)] obtain w' h1 where c1: "h_cloneDeep (Suc k) h w = Some (w', h1)"
    and r1: "h_read k h1 w' = Some t" by blast
  have p1: "prefix h h1" using c1 by (rule clone_frame_val)
  have "h_readItems k h1 xs = Some rest" using p1 rest by (rule read_prefix_items)
  from Cons.IH [OF this pd(2)] obtain rest' h2 where
    c2: "h_cloneItems (Suc k) h1 xs = Some (rest', h2)"
    and r2: "h_readItems k h2 rest' = Some rest" by blast
  have "prefix h1 h2" using c2 clone_frame by blast
  then have "h_read k h2 w' = Some t" using r1 by (rule read_prefix_val)
  then have "h_readItems k h2 (w' # rest') = Some ts" using r2 ts by simp
  moreover have "h_cloneItems (Suc k) h (w # xs) = Some (w' # rest', h2)"
    using c1 c2 by (simp del: h_cloneDeep.simps)
  ultimately show ?case by blast
qed

lemma clone_reads_eq:
  "h_read k h v = Some t \<Longrightarrow> plain_data e t \<Longrightarrow>
     \<exists>v' h'. h_cloneDeep (Suc k) h v = Some (v', h') \<and> h_read k h' v' = Some t"
proof (induction k arbitrary: h v t)
  case 0
  then show ?case by (cases v) simp_all
next
  case (Suc k)
  have val: "\<exists>v' h'. h_cloneDeep (Suc k) h v = Some (v', h') \<and> h_read k h' v' = Some t"
    if "h_read k h v = Some t" "plain_data e t" for h v t
    using that by (rule Suc.IH)
  show ?case
  proof (cases v)
    case (HRef a)
    from Suc.prems(1) obtain c where c: "cell_at h a = Some c"
      unfolding HRef by (auto split: option.splits)
    show ?thesis
    proof (cases c)
      case (CObj kvs)
      then obtain ts where ts: "h_readProps k h kvs = Some ts" and t: "t = JObj ts"
        using Suc.prems(1) c unfolding HRef by auto
      have pds: "\<forall>q \<in> set ts. plain_data e (snd q)" using Suc.prems(2) t by simp
      have "\<exists>kvs' h'. h_cloneProps (Suc k) h kvs = Some (kvs', h') \<and> h_readProps k h' kvs' = Some ts"
        using ts pds
      proof (rule clone_props_reads_eq [rotated])
        fix h v t assume "h_read k h v = Some t" "plain_data e t"
        then show "\<exists>v' h'. h_cloneDeep (Suc k) h v = Some (v', h') \<and> h_read k h' v' = Some t"
          by (rule val)
      qed
      then obtain kvs' h1 where c1: "h_cloneProps (Suc k) h kvs = Some (kvs', h1)"
        and r1: "h_readProps k h1 kvs' = Some ts" by blast
      have keys: "map fst kvs' = map fst ts" using r1 by (rule readProps_keys)
      have "distinct (map fst kvs')" using Suc.prems(2) t keys by simp
      moreover have "''__proto__'' \<notin> fst ` set kvs'"
      proof
        assume "''__proto__'' \<in> fst ` set kvs'"
        then have "''__proto__'' \<in> set (map fst ts)" using keys by (metis set_map)
        then obtain q where "q \<in> set ts" "fst q = ''__proto__''" by auto
        then show False using Suc.prems(2) t newKey_proto [of e] by auto
      qed
      ultimately have fold: "fold (h_assignValue (length h1)) kvs' (h1 @ [CObj []])
                               = h1 @ [CObj ([] @ kvs')]"
        by (intro fold_h_assign_fresh) simp_all
      have init: "h_initCloneObject h v = CObj []"
        using c CObj unfolding HRef by (simp add: h_initCloneObject_def)
      have "h_readProps k (h1 @ [CObj kvs']) kvs' = Some ts"
        using r1 by (rule read_prefix_props [rotated]) simp
      then have "h_read (Suc k) (h1 @ [CObj kvs']) (HRef (length h1)) = Some t"
        by (simp add: cell_at_snoc t)
      moreover have "h_cloneDeep (Suc (Suc k)) h v = Some (HRef (length h1), h1 @ [CObj kvs'])"
        using c c1 CObj fold init unfolding HRef
        by (simp add: alloc_def del: h_cloneProps.simps)
      ultimately show ?thesis by blast
    next
      case (CObjP p kvs)
      then have "\<exists>q ts. t = JObjP q ts"
        using Suc.prems(1) c unfolding HRef by (auto split: option.splits)
      then show ?thesis using Suc.prems(2) by auto
    next
      case (CArr xs)
      then obtain ts where ts: "h_readItems k h xs = Some ts" and t: "t = JArr ts"
        using Suc.prems(1) c unfolding HRef by auto
      have pds: "\<forall>t \<in> set ts. plain_data e t" using Suc.prems(2) t by simp
      have "\<exists>xs' h'. h_cloneItems (Suc k) h xs = Some (xs', h') \<and> h_readItems k h' xs' = Some ts"
        using ts pds
      proof (rule clone_items_reads_eq [rotated])
        fix h v t assume "h_read k h v = Some t" "plain_data e t"
        then show "\<exists>v' h'. h_cloneDeep (Suc k) h v = Some (v', h') \<and> h_read k h' v' = Some t"
          by (rule val)
      qed
      then obtain xs' h1 where c1: "h_cloneItems (Suc k) h xs = Some (xs', h1)"
        and r1: "h_readItems k h1 xs' = Some ts" by blast
      have "h_readItems k (h1 @ [CArr xs']) xs' = Some ts"
        using r1 by (rule read_prefix_items [rotated]) simp
      then have "h_read (Suc k) (h1 @ [CArr xs']) (HRef (length h1)) = Some t"
        by (simp add: cell_at_snoc t)
      moreover have "h_cloneDeep (Suc (Suc k)) h v = Some (HRef (length h1), h1 @ [CArr xs'])"
        using c c1 CArr unfolding HRef by (simp add: alloc_def del: h_cloneItems.simps)
      ultimately show ?thesis by blast
    qed
  qed (use Suc.prems in simp_all)
qed


lemma readPropsB_iff:
  "h_readPropsB B k h kvs = Some ts
     \<longleftrightarrow> list_all2 (\<lambda>p q. fst p = fst q \<and> h_readB B k h (snd p) = Some (snd q)) kvs ts"
proof (induction kvs arbitrary: ts)
  case Nil
  then show ?case by auto
next
  case (Cons p kvs)
  obtain key v where p: "p = (key, v)" by (cases p)
  show ?case
  proof (cases ts)
    case Nil
    then show ?thesis unfolding p by (auto split: option.splits)
  next
    case (Cons q ts')
    then show ?thesis unfolding p using Cons.IH [of ts']
      by (cases q) (auto split: option.splits)
  qed
qed

lemma readItemsB_iff:
  "h_readItemsB B k h xs = Some ts \<longleftrightarrow> list_all2 (\<lambda>v t. h_readB B k h v = Some t) xs ts"
proof (induction xs arbitrary: ts)
  case Nil
  then show ?case by auto
next
  case (Cons v xs)
  show ?case
  proof (cases ts)
    case Nil
    then show ?thesis by (auto split: option.splits)
  next
    case (Cons q ts')
    then show ?thesis using Cons.IH [of ts'] by (auto split: option.splits)
  qed
qed

lemma readB_stable_all:
  assumes sub: "\<And>a. B' a \<Longrightarrow> B a"
    and same: "\<And>a c. \<not> B a \<Longrightarrow> cell_at h a = Some c \<Longrightarrow> cell_at h' a = Some c"
  shows "(h_readB B k h v = Some t \<longrightarrow> h_readB B' k h' v = Some t)
     \<and> (\<forall>kvs ts. h_readPropsB B k h kvs = Some ts \<longrightarrow> h_readPropsB B' k h' kvs = Some ts)
     \<and> (\<forall>xs ts. h_readItemsB B k h xs = Some ts \<longrightarrow> h_readItemsB B' k h' xs = Some ts)"
proof (induction k arbitrary: v t)
  case 0
  have r: "h_readB B 0 h v = Some t \<Longrightarrow> h_readB B' 0 h' v = Some t" for v t
    by (cases v) simp_all
  have p: "h_readPropsB B 0 h kvs = Some ts \<longrightarrow> h_readPropsB B' 0 h' kvs = Some ts" for kvs ts
    unfolding readPropsB_iff using r by (auto elim!: list_all2_mono)
  have i: "h_readItemsB B 0 h xs = Some ts \<longrightarrow> h_readItemsB B' 0 h' xs = Some ts" for xs ts
    unfolding readItemsB_iff using r by (auto elim!: list_all2_mono)
  from r p i show ?case by blast
next
  case (Suc k)
  have ihp: "h_readPropsB B k h kvs = Some ts \<Longrightarrow> h_readPropsB B' k h' kvs = Some ts" for kvs ts
    using Suc.IH by blast
  have ihi: "h_readItemsB B k h xs = Some ts \<Longrightarrow> h_readItemsB B' k h' xs = Some ts" for xs ts
    using Suc.IH by blast
  have ihr: "h_readB B k h v = Some t \<Longrightarrow> h_readB B' k h' v = Some t" for v t
    using Suc.IH by blast
  have r: "h_readB B (Suc k) h v = Some t \<Longrightarrow> h_readB B' (Suc k) h' v = Some t" for v t
  proof (cases v)
    case (HRef a)
    assume rd: "h_readB B (Suc k) h v = Some t"
    then have nb: "\<not> B a" unfolding HRef by (auto split: if_splits)
    then have nb': "\<not> B' a" using sub by blast
    from rd nb obtain c where c: "cell_at h a = Some c"
      unfolding HRef by (auto split: option.splits)
    then have c': "cell_at h' a = Some c" using same nb by blast
    show ?thesis
      using rd nb nb' c c' ihp ihi ihr unfolding HRef
      by (cases c) (auto split: option.splits)
  qed simp_all
  have p: "h_readPropsB B (Suc k) h kvs = Some ts \<longrightarrow> h_readPropsB B' (Suc k) h' kvs = Some ts"
    for kvs ts
    unfolding readPropsB_iff using r by (auto elim!: list_all2_mono)
  have i: "h_readItemsB B (Suc k) h xs = Some ts \<longrightarrow> h_readItemsB B' (Suc k) h' xs = Some ts"
    for xs ts
    unfolding readItemsB_iff using r by (auto elim!: list_all2_mono)
  from r p i show ?case by blast
qed

lemma readB_stable:
  assumes "\<And>a. B' a \<Longrightarrow> B a"
    and "\<And>a c. \<not> B a \<Longrightarrow> cell_at h a = Some c \<Longrightarrow> cell_at h' a = Some c"
    and "h_readB B k h v = Some t"
  shows "h_readB B' k h' v = Some t"
  using readB_stable_all [of B' B h h' k v t] assms by blast

lemma readB_read_all:
  "(h_readB B k h v = Some t \<longrightarrow> h_read k h v = Some t)
   \<and> (\<forall>kvs ts. h_readPropsB B k h kvs = Some ts \<longrightarrow> h_readProps k h kvs = Some ts)
   \<and> (\<forall>xs ts. h_readItemsB B k h xs = Some ts \<longrightarrow> h_readItems k h xs = Some ts)"
proof (induction k arbitrary: v t)
  case 0
  have r: "h_readB B 0 h v = Some t \<Longrightarrow> h_read 0 h v = Some t" for v t
    by (cases v) simp_all
  have p: "h_readPropsB B 0 h kvs = Some ts \<longrightarrow> h_readProps 0 h kvs = Some ts" for kvs ts
  proof (induction kvs arbitrary: ts)
    case (Cons q kvs)
    then show ?case using r by (cases q) (auto split: option.splits)
  qed simp
  have i: "h_readItemsB B 0 h xs = Some ts \<longrightarrow> h_readItems 0 h xs = Some ts" for xs ts
  proof (induction xs arbitrary: ts)
    case (Cons q xs)
    then show ?case using r by (auto split: option.splits)
  qed simp
  from r p i show ?case by blast
next
  case (Suc k)
  have ihp: "h_readPropsB B k h kvs = Some ts \<Longrightarrow> h_readProps k h kvs = Some ts" for kvs ts
    using Suc.IH by blast
  have ihi: "h_readItemsB B k h xs = Some ts \<Longrightarrow> h_readItems k h xs = Some ts" for xs ts
    using Suc.IH by blast
  have ihr: "h_readB B k h v = Some t \<Longrightarrow> h_read k h v = Some t" for v t
    using Suc.IH by blast
  have r: "h_readB B (Suc k) h v = Some t \<Longrightarrow> h_read (Suc k) h v = Some t" for v t
  proof (cases v)
    case (HRef a)
    assume rd: "h_readB B (Suc k) h v = Some t"
    then have nb: "\<not> B a" unfolding HRef by (auto split: if_splits)
    from rd nb obtain c where c: "cell_at h a = Some c"
      unfolding HRef by (auto split: option.splits)
    show ?thesis
      using rd nb c ihp ihi ihr unfolding HRef by (cases c) (auto split: option.splits)
  qed simp_all
  have p: "h_readPropsB B (Suc k) h kvs = Some ts \<longrightarrow> h_readProps (Suc k) h kvs = Some ts"
    for kvs ts
  proof (induction kvs arbitrary: ts)
    case (Cons q kvs)
    then show ?case using r
      by (cases q) (auto split: option.splits simp del: h_readB.simps h_read.simps)
  qed simp
  have i: "h_readItemsB B (Suc k) h xs = Some ts \<longrightarrow> h_readItems (Suc k) h xs = Some ts"
    for xs ts
  proof (induction xs arbitrary: ts)
    case (Cons q xs)
    then show ?case using r by (auto split: option.splits simp del: h_readB.simps h_read.simps)
  qed simp
  from r p i show ?case by blast
qed

lemma read_readB_all:
  "(h_read k h v = Some t \<longrightarrow> h_readB (\<lambda>a. length h \<le> a) k h v = Some t)
   \<and> (\<forall>kvs ts. h_readProps k h kvs = Some ts
         \<longrightarrow> h_readPropsB (\<lambda>a. length h \<le> a) k h kvs = Some ts)
   \<and> (\<forall>xs ts. h_readItems k h xs = Some ts
         \<longrightarrow> h_readItemsB (\<lambda>a. length h \<le> a) k h xs = Some ts)"
proof (induction k arbitrary: v t)
  case 0
  have r: "h_read 0 h v = Some t \<Longrightarrow> h_readB (\<lambda>a. length h \<le> a) 0 h v = Some t" for v t
    by (cases v) simp_all
  have p: "h_readProps 0 h kvs = Some ts \<longrightarrow> h_readPropsB (\<lambda>a. length h \<le> a) 0 h kvs = Some ts"
    for kvs ts
  proof (induction kvs arbitrary: ts)
    case (Cons q kvs)
    then show ?case using r by (cases q) (auto split: option.splits)
  qed simp
  have i: "h_readItems 0 h xs = Some ts \<longrightarrow> h_readItemsB (\<lambda>a. length h \<le> a) 0 h xs = Some ts"
    for xs ts
  proof (induction xs arbitrary: ts)
    case (Cons q xs)
    then show ?case using r by (auto split: option.splits)
  qed simp
  from r p i show ?case by blast
next
  case (Suc k)
  have ihp: "h_readProps k h kvs = Some ts \<Longrightarrow> h_readPropsB (\<lambda>a. length h \<le> a) k h kvs = Some ts"
    for kvs ts using Suc.IH by blast
  have ihi: "h_readItems k h xs = Some ts \<Longrightarrow> h_readItemsB (\<lambda>a. length h \<le> a) k h xs = Some ts"
    for xs ts using Suc.IH by blast
  have ihr: "h_read k h v = Some t \<Longrightarrow> h_readB (\<lambda>a. length h \<le> a) k h v = Some t"
    for v t using Suc.IH by blast
  have r: "h_read (Suc k) h v = Some t \<Longrightarrow> h_readB (\<lambda>a. length h \<le> a) (Suc k) h v = Some t"
    for v t
  proof (cases v)
    case (HRef a)
    assume rd: "h_read (Suc k) h v = Some t"
    then obtain c where c: "cell_at h a = Some c"
      unfolding HRef by (auto split: option.splits)
    then have "a < length h" by (auto simp: cell_at_def split: if_splits)
    then show ?thesis
      using rd c ihp ihi ihr unfolding HRef by (cases c) (auto split: option.splits)
  qed simp_all
  have p: "h_readProps (Suc k) h kvs = Some ts
             \<longrightarrow> h_readPropsB (\<lambda>a. length h \<le> a) (Suc k) h kvs = Some ts" for kvs ts
  proof (induction kvs arbitrary: ts)
    case (Cons q kvs)
    then show ?case using r
      by (cases q) (auto split: option.splits simp del: h_readB.simps h_read.simps)
  qed simp
  have i: "h_readItems (Suc k) h xs = Some ts
             \<longrightarrow> h_readItemsB (\<lambda>a. length h \<le> a) (Suc k) h xs = Some ts" for xs ts
  proof (induction xs arbitrary: ts)
    case (Cons q xs)
    then show ?case using r by (auto split: option.splits simp del: h_readB.simps h_read.simps)
  qed simp
  from r p i show ?case by blast
qed


lemma readB_val: "h_readB B k h v = Some t \<Longrightarrow> h_read k h v = Some t"
  using readB_read_all by blast

lemma read_readB: "h_read k h v = Some t \<Longrightarrow> h_readB (\<lambda>a. length h \<le> a) k h v = Some t"
  using read_readB_all by blast

lemma readB_ctor: "h_readB B k h c = Some t \<Longrightarrow> h_ctor_of c = ctor_of t"
proof (cases c)
  case (HRef a)
  assume "h_readB B k h c = Some t"
  then show ?thesis unfolding HRef
    by (cases k) (auto split: if_splits option.splits cell.splits)
qed auto

lemma map_of_all2:
  "list_all2 (\<lambda>p q. fst p = fst q \<and> R (snd p) (snd q)) kvs ts
     \<Longrightarrow> rel_option R (map_of kvs x) (map_of ts x)"
proof (induction kvs ts rule: list_all2_induct)
  case Nil
  then show ?case by simp
next
  case (Cons p kvs q ts)
  then show ?case by (cases p; cases q) auto
qed

lemma readB_kind:
  assumes "h_readB B k h v = Some t" and pd: "plain_data e t"
  shows "h_isPlainObject h v = isPlainObject t" and "h_isArray h v = isArray t"
    and "(\<exists>s. v = HStr s) = isString t" and "\<And>s. v = HStr s \<Longrightarrow> t = JStr s"
proof -
  show "\<And>s. v = HStr s \<Longrightarrow> t = JStr s" using assms by auto
  show "(\<exists>s. v = HStr s) = isString t"
    using assms(1) by (cases v; cases k) (auto split: if_splits option.splits cell.splits)
  show "h_isArray h v = isArray t"
    using assms(1) by (cases v; cases k) (auto split: if_splits option.splits cell.splits)
  show "h_isPlainObject h v = isPlainObject t"
  proof (cases v)
    case (HRef a)
    from assms(1) obtain k' where k: "k = Suc k'" unfolding HRef by (cases k) auto
    from assms(1) have nb: "\<not> B a" unfolding HRef k by (auto split: if_splits)
    from assms(1) nb obtain c where c: "cell_at h a = Some c"
      unfolding HRef k by (auto split: option.splits)
    show ?thesis
    proof (cases c)
      case (CArr xs)
      then show ?thesis using assms(1) nb c unfolding HRef k by auto
    next
      case (CObjP p kvs)
      then have "\<exists>q ts. t = JObjP q ts"
        using assms(1) nb c unfolding HRef k by (auto split: option.splits)
      then show ?thesis using pd by auto
    next
      case (CObj kvs)
      then obtain ts where ts: "h_readPropsB B k' h kvs = Some ts" and t: "t = JObj ts"
        using assms(1) nb c unfolding HRef k by auto
      have "rel_option (\<lambda>c tc. h_readB B k' h c = Some tc)
              (map_of kvs ''constructor'') (map_of ts ''constructor'')"
        using ts unfolding readPropsB_iff by (rule map_of_all2)
      then have "(case map_of kvs ''constructor'' of None \<Rightarrow> Ctor_Object | Some c \<Rightarrow> h_ctor_of c)
               = (case map_of ts ''constructor'' of None \<Rightarrow> Ctor_Object | Some c \<Rightarrow> ctor_of c)"
        by (cases "map_of kvs ''constructor''"; cases "map_of ts ''constructor''")
          (auto dest: readB_ctor)
      then show ?thesis using c CObj unfolding HRef t by simp
    qed
  qed (use assms(1) in auto)
qed

lemma set_own_all2:
  "list_all2 (\<lambda>p q. fst p = fst q \<and> R (snd p) (snd q)) acc_h acc \<Longrightarrow> R w t
     \<Longrightarrow> list_all2 (\<lambda>p q. fst p = fst q \<and> R (snd p) (snd q))
           (set_own acc_h key w) (set_own acc key t)"
proof (induction acc_h acc rule: list_all2_induct)
  case Nil
  then show ?case by simp
next
  case (Cons p acc_h q acc)
  then show ?case by (cases p; cases q) auto
qed

lemma same_except_refl: "same_except L h h"
  by (simp add: same_except_def)

lemma same_except_trans: "same_except L h h1 \<Longrightarrow> same_except L h1 h2 \<Longrightarrow> same_except L h h2"
  by (simp add: same_except_def)

lemma same_except_prefix: "prefix h h' \<Longrightarrow> same_except L h h'"
  by (auto simp: same_except_def dest: cell_at_prefix)

lemma same_except_set_prop: "same_except L h (h_set_prop h L key w)"
  by (auto simp: same_except_def h_set_prop_def cell_at_def split: option.splits cell.splits if_splits)

lemma same_except_set_item: "same_except L h (h_set_item h L i w)"
  by (auto simp: same_except_def h_set_item_def cell_at_def split: option.splits cell.splits if_splits)

lemma cell_set_prop:
  "cell_at h L = Some (CObj acc_h) \<Longrightarrow> key \<noteq> ''__proto__''
     \<Longrightarrow> cell_at (h_set_prop h L key w) L = Some (CObj (set_own acc_h key w))"
  by (auto simp: h_set_prop_def cell_at_def split: if_splits)

lemma cell_set_item:
  "cell_at h L = Some (CArr ys)
     \<Longrightarrow> cell_at (h_set_item h L i w) L = Some (CArr (ys[i := w]))"
  by (auto simp: h_set_item_def cell_at_def split: if_splits)


lemma props_step:
  assumes rec: "\<And>v t h f base. h_readB (\<lambda>a. base \<le> a) k h v = Some t \<Longrightarrow> base \<le> length h
                  \<Longrightarrow> plain_data e t
                  \<Longrightarrow> \<exists>v' h'. h_recursiveSanitize (Suc k) e v (h, f) = Some (v', h', f \<or> flagV e t)
                        \<and> h_readB (\<lambda>a. base \<le> a \<and> a < length h) k h' v' = Some (sanV e t)"
    and rd: "h_readB (\<lambda>a. base \<le> a) k h (h_get h cur key) = Some t"
    and base: "base \<le> length h" and wf: "plain_data e t"
  shows "\<exists>w h2. h_sanitizeProps (Suc k) e cur (key # keys) newObj (h, f)
            = h_sanitizeProps (Suc k) e cur keys newObj
                (h_set_prop h2 newObj (newKey_of e key) w, f \<or> prop_flag e (key, t))
          \<and> prefix h h2
          \<and> h_readB (\<lambda>a. base \<le> a \<and> a < length h) k h2 w = Some (item_value e t)"
proof -
  let ?val = "h_get h cur key"
  let ?f1 = "if match key (charRegex e) \<and> \<not> c_dryRun e then True else f"
  note kind = readB_kind [OF rd wf]
  show ?thesis
  proof (cases "isPlainObject t \<or> isArray t")
    case True
    from rec [OF rd base wf, of ?f1] obtain v' h' where
      r: "h_recursiveSanitize (Suc k) e ?val (h, ?f1) = Some (v', h', ?f1 \<or> flagV e t)"
      and rv: "h_readB (\<lambda>a. base \<le> a \<and> a < length h) k h' v' = Some (sanV e t)" by blast
    have p: "prefix h h'" using r by (rule rec_frame) simp
    have eq: "h_sanitizeProps (Suc k) e cur (key # keys) newObj (h, f)
            = h_sanitizeProps (Suc k) e cur keys newObj
                (h_set_prop h' newObj (newKey_of e key) v', f \<or> prop_flag e (key, t))"
      using True kind(1,2) r
      by (auto simp: Let_def newKey_of_def prop_pair item_container
            simp del: h_recursiveSanitize.simps)
    show ?thesis using eq p rv True by (auto simp: item_container)
  next
    case False
    show ?thesis
    proof (cases "isString t")
      case True
      then obtain s where v: "?val = HStr s" using kind(3) by blast
      then have t: "t = JStr s" by (rule kind(4))
      let ?w = "if match s (charRegex e) \<and> \<not> c_dryRun e
                then HStr (replace s (charRegex e) (c_replaceWith e)) else HStr s"
      have eq: "h_sanitizeProps (Suc k) e cur (key # keys) newObj (h, f)
            = h_sanitizeProps (Suc k) e cur keys newObj
                (h_set_prop h newObj (newKey_of e key) ?w, f \<or> prop_flag e (key, t))"
        using v unfolding t
        by (auto simp: Let_def newKey_of_def prop_pair item_string
              simp del: h_recursiveSanitize.simps)
      have "h_readB (\<lambda>a. base \<le> a \<and> a < length h) k h ?w = Some (item_value e t)"
        unfolding t by (simp add: item_string)
      with eq show ?thesis by (metis prefix_order.refl)
    next
      case ns: False
      have iv: "item_value e t = t" "item_flag e t = False"
        using False ns by (simp_all add: item_other)
      have nstr: "\<And>s. ?val \<noteq> HStr s" using ns kind(3) by blast
      have eq: "h_sanitizeProps (Suc k) e cur (key # keys) newObj (h, f)
            = h_sanitizeProps (Suc k) e cur keys newObj
                (h_set_prop h newObj (newKey_of e key) ?val, f \<or> prop_flag e (key, t))"
        using False kind(1,2) nstr
        by (cases ?val)
          (auto simp: Let_def newKey_of_def prop_pair iv simp del: h_recursiveSanitize.simps)
      have "h_readB (\<lambda>a. base \<le> a \<and> a < length h) k h ?val = Some t"
        using _ _ rd by (rule readB_stable) simp_all
      with eq iv show ?thesis by (metis prefix_order.refl)
    qed
  qed
qed

lemma items_step:
  assumes rec: "\<And>v t h f base. h_readB (\<lambda>a. base \<le> a) k h v = Some t \<Longrightarrow> base \<le> length h
                  \<Longrightarrow> plain_data e t
                  \<Longrightarrow> \<exists>v' h'. h_recursiveSanitize (Suc k) e v (h, f) = Some (v', h', f \<or> flagV e t)
                        \<and> h_readB (\<lambda>a. base \<le> a \<and> a < length h) k h' v' = Some (sanV e t)"
    and rd: "h_readB (\<lambda>a. base \<le> a) k h (h_item h cur i) = Some t"
    and base: "base \<le> length h" and wf: "plain_data e t"
  shows "\<exists>w h2. h_sanitizeItems (Suc k) e cur (i # is) res (h, f)
            = h_sanitizeItems (Suc k) e cur is res (h_set_item h2 res i w, f \<or> item_flag e t)
          \<and> prefix h h2
          \<and> h_readB (\<lambda>a. base \<le> a \<and> a < length h) k h2 w = Some (item_value e t)"
proof -
  let ?val = "h_item h cur i"
  note kind = readB_kind [OF rd wf]
  show ?thesis
  proof (cases "isPlainObject t \<or> isArray t")
    case True
    from rec [OF rd base wf, of f] obtain v' h' where
      r: "h_recursiveSanitize (Suc k) e ?val (h, f) = Some (v', h', f \<or> flagV e t)"
      and rv: "h_readB (\<lambda>a. base \<le> a \<and> a < length h) k h' v' = Some (sanV e t)" by blast
    have p: "prefix h h'" using r by (rule rec_frame) simp
    have eq: "h_sanitizeItems (Suc k) e cur (i # is) res (h, f)
            = h_sanitizeItems (Suc k) e cur is res (h_set_item h' res i v', f \<or> item_flag e t)"
      using True kind(1,2) r
      by (auto simp: Let_def item_container simp del: h_recursiveSanitize.simps)
    show ?thesis using eq p rv True by (auto simp: item_container)
  next
    case False
    show ?thesis
    proof (cases "isString t")
      case True
      then obtain s where v: "?val = HStr s" using kind(3) by blast
      then have t: "t = JStr s" by (rule kind(4))
      let ?w = "if match s (charRegex e) \<and> \<not> c_dryRun e
                then HStr (replace s (charRegex e) (c_replaceWith e)) else HStr s"
      have eq: "h_sanitizeItems (Suc k) e cur (i # is) res (h, f)
            = h_sanitizeItems (Suc k) e cur is res (h_set_item h res i ?w, f \<or> item_flag e t)"
        using v unfolding t
        by (auto simp: Let_def item_string simp del: h_recursiveSanitize.simps)
      have "h_readB (\<lambda>a. base \<le> a \<and> a < length h) k h ?w = Some (item_value e t)"
        unfolding t by (simp add: item_string)
      with eq show ?thesis by (metis prefix_order.refl)
    next
      case ns: False
      have iv: "item_value e t = t" "item_flag e t = False"
        using False ns by (simp_all add: item_other)
      have nstr: "\<And>s. ?val \<noteq> HStr s" using ns kind(3) by blast
      have eq: "h_sanitizeItems (Suc k) e cur (i # is) res (h, f)
            = h_sanitizeItems (Suc k) e cur is res (h_set_item h res i ?val, f \<or> item_flag e t)"
        using False kind(1,2) nstr
        by (cases ?val) (auto simp: Let_def iv simp del: h_recursiveSanitize.simps)
      have "h_readB (\<lambda>a. base \<le> a \<and> a < length h) k h ?val = Some t"
        using _ _ rd by (rule readB_stable) simp_all
      with eq iv show ?thesis by (metis prefix_order.refl)
    qed
  qed
qed


lemma length_set_prop: "length (h_set_prop h a key w) = length h"
  by (simp add: h_set_prop_def split: option.splits cell.splits)

lemma length_set_item: "length (h_set_item h a i w) = length h"
  by (simp add: h_set_item_def split: option.splits cell.splits)

lemma props_refine:
  assumes rec: "\<And>v t h f base. h_readB (\<lambda>a. base \<le> a) k h v = Some t \<Longrightarrow> base \<le> length h
                  \<Longrightarrow> plain_data e t
                  \<Longrightarrow> \<exists>v' h'. h_recursiveSanitize (Suc k) e v (h, f) = Some (v', h', f \<or> flagV e t)
                        \<and> h_readB (\<lambda>a. base \<le> a \<and> a < length h) k h' v' = Some (sanV e t)"
    and cur: "cell_at hb cur = Some (CObj kvs)" "cur < base" "base \<le> L"
    and dist: "distinct (map fst kvs)"
  shows "set rest_h \<subseteq> set kvs
     \<Longrightarrow> list_all2 (\<lambda>p q. fst p = fst q \<and> h_readB (\<lambda>a. base \<le> a) k hb (snd p) = Some (snd q))
           rest_h rest_t
     \<Longrightarrow> \<forall>q \<in> set rest_t. newKey_of e (fst q) \<noteq> ''__proto__'' \<and> plain_data e (snd q)
     \<Longrightarrow> same_except L hb h \<Longrightarrow> L < length h \<Longrightarrow> cell_at h L = Some (CObj acc_h)
     \<Longrightarrow> list_all2 (\<lambda>p q. fst p = fst q
                         \<and> h_readB (\<lambda>a. base \<le> a \<and> a \<le> L) k h (snd p) = Some (snd q)) acc_h acc
     \<Longrightarrow> \<exists>h' out_h. h_sanitizeProps (Suc k) e cur (map fst rest_h) L (h, f)
                       = Some (h', f \<or> list_ex (prop_flag e) rest_t)
           \<and> same_except L h h' \<and> length h \<le> length h'
           \<and> cell_at h' L = Some (CObj out_h)
           \<and> list_all2 (\<lambda>p q. fst p = fst q
                         \<and> h_readB (\<lambda>a. base \<le> a \<and> a \<le> L) k h' (snd p) = Some (snd q))
                 out_h (fold (own_step e) rest_t acc)"
proof (induction rest_h arbitrary: rest_t h f acc_h acc)
  case Nil
  then show ?case by (auto simp: same_except_refl)
next
  case (Cons p rest_h)
  obtain key v where p: "p = (key, v)" by (cases p)
  from Cons.prems(2) obtain t rest_t' where rt: "rest_t = (key, t) # rest_t'"
    and rdb: "h_readB (\<lambda>a. base \<le> a) k hb v = Some t"
    and rest: "list_all2 (\<lambda>p q. fst p = fst q \<and> h_readB (\<lambda>a. base \<le> a) k hb (snd p) = Some (snd q))
                 rest_h rest_t'"
    unfolding p by (cases rest_t) auto
  have wf: "plain_data e t"
    "\<forall>q \<in> set rest_t'. newKey_of e (fst q) \<noteq> ''__proto__'' \<and> plain_data e (snd q)"
    and nk: "newKey_of e key \<noteq> ''__proto__''"
    using Cons.prems(3) rt by auto
  have neq: "cur \<noteq> L" using cur(2,3) by simp
  have ch: "cell_at h cur = Some (CObj kvs)"
    using Cons.prems(4) cur(1) neq by (simp add: same_except_def)
  have "(key, v) \<in> set kvs" using Cons.prems(1) p by auto
  then have "map_of kvs key = Some v" using dist by (rule map_of_is_SomeI [rotated])
  then have get: "h_get h cur key = v" using ch by (simp add: h_get_def)
  have rd: "h_readB (\<lambda>a. base \<le> a) k h (h_get h cur key) = Some t"
    unfolding get using _ _ rdb
  proof (rule readB_stable)
    fix a c assume "\<not> base \<le> a" "cell_at hb a = Some c"
    then show "cell_at h a = Some c" using Cons.prems(4) cur(3) by (simp add: same_except_def)
  qed simp
  have bl: "base \<le> length h" using cur(3) Cons.prems(5) by simp
  from props_step [OF rec rd bl wf(1), of "map fst rest_h" L f]
  obtain w h2 where eq: "h_sanitizeProps (Suc k) e cur (key # map fst rest_h) L (h, f)
            = h_sanitizeProps (Suc k) e cur (map fst rest_h) L
                (h_set_prop h2 L (newKey_of e key) w, f \<or> prop_flag e (key, t))"
    and pre: "prefix h h2"
    and rw: "h_readB (\<lambda>a. base \<le> a \<and> a < length h) k h2 w = Some (item_value e t)"
    by blast
  let ?h3 = "h_set_prop h2 L (newKey_of e key) w"
  have c2: "cell_at h2 L = Some (CObj acc_h)" using pre Cons.prems(6) by (rule cell_at_prefix)
  have c3: "cell_at ?h3 L = Some (CObj (set_own acc_h (newKey_of e key) w))"
    using c2 nk by (rule cell_set_prop)
  have s23: "same_except L h2 ?h3" by (rule same_except_set_prop)
  have s3: "same_except L h ?h3"
    using same_except_prefix [OF pre] s23 by (rule same_except_trans)
  have sb3: "same_except L hb ?h3" using Cons.prems(4) s3 by (rule same_except_trans)
  have len: "length h \<le> length ?h3"
    using prefix_length_le [OF pre] by (simp add: length_set_prop)
  then have l3: "L < length ?h3" using Cons.prems(5) by simp
  have old: "list_all2 (\<lambda>p q. fst p = fst q
               \<and> h_readB (\<lambda>a. base \<le> a \<and> a \<le> L) k ?h3 (snd p) = Some (snd q)) acc_h acc"
    using Cons.prems(7)
  proof (rule list_all2_mono)
    fix x y assume "fst x = fst y \<and> h_readB (\<lambda>a. base \<le> a \<and> a \<le> L) k h (snd x) = Some (snd y)"
    moreover have "h_readB (\<lambda>a. base \<le> a \<and> a \<le> L) k ?h3 (snd x) = Some (snd y)"
      if r: "h_readB (\<lambda>a. base \<le> a \<and> a \<le> L) k h (snd x) = Some (snd y)"
      using _ _ r
    proof (rule readB_stable)
      fix a c assume "\<not> (base \<le> a \<and> a \<le> L)" "cell_at h a = Some c"
      then show "cell_at ?h3 a = Some c" using s3 cur(3) by (auto simp: same_except_def)
    qed simp
    ultimately show "fst x = fst y \<and> h_readB (\<lambda>a. base \<le> a \<and> a \<le> L) k ?h3 (snd x) = Some (snd y)"
      by simp
  qed
  have new: "h_readB (\<lambda>a. base \<le> a \<and> a \<le> L) k ?h3 w = Some (item_value e t)"
    using _ _ rw
  proof (rule readB_stable)
    fix a assume "base \<le> a \<and> a \<le> L"
    then show "base \<le> a \<and> a < length h" using Cons.prems(5) by simp
  next
    fix a c assume "\<not> (base \<le> a \<and> a < length h)" "cell_at h2 a = Some c"
    then show "cell_at ?h3 a = Some c"
      using s23 cur(3) Cons.prems(5) by (auto simp: same_except_def)
  qed
  have acc': "list_all2 (\<lambda>p q. fst p = fst q
               \<and> h_readB (\<lambda>a. base \<le> a \<and> a \<le> L) k ?h3 (snd p) = Some (snd q))
            (set_own acc_h (newKey_of e key) w) (set_own acc (newKey_of e key) (item_value e t))"
    using old new by (rule set_own_all2)
  have sub: "set rest_h \<subseteq> set kvs" using Cons.prems(1) by auto
  from Cons.IH [OF sub rest wf(2) sb3 l3 c3 acc', of "f \<or> prop_flag e (key, t)"]
  obtain h' out_h where
    fin: "h_sanitizeProps (Suc k) e cur (map fst rest_h) L (?h3, f \<or> prop_flag e (key, t))
            = Some (h', (f \<or> prop_flag e (key, t)) \<or> list_ex (prop_flag e) rest_t')"
    and s4: "same_except L ?h3 h'" and l4: "length ?h3 \<le> length h'"
    and c4: "cell_at h' L = Some (CObj out_h)"
    and r4: "list_all2 (\<lambda>p q. fst p = fst q
               \<and> h_readB (\<lambda>a. base \<le> a \<and> a \<le> L) k h' (snd p) = Some (snd q))
            out_h (fold (own_step e) rest_t' (set_own acc (newKey_of e key) (item_value e t)))"
    by blast
  have "h_sanitizeProps (Suc k) e cur (map fst (p # rest_h)) L (h, f)
          = Some (h', f \<or> list_ex (prop_flag e) rest_t)"
    unfolding p rt using eq fin by (simp del: h_sanitizeProps.simps)
  moreover have "same_except L h h'" using s3 s4 by (rule same_except_trans)
  moreover have "length h \<le> length h'" using len l4 by simp
  moreover have "fold (own_step e) rest_t acc
      = fold (own_step e) rest_t' (set_own acc (newKey_of e key) (item_value e t))"
    unfolding rt by (simp add: own_pair)
  ultimately show ?case using c4 r4 by auto
qed


lemma items_refine:
  assumes rec: "\<And>v t h f base. h_readB (\<lambda>a. base \<le> a) k h v = Some t \<Longrightarrow> base \<le> length h
                  \<Longrightarrow> plain_data e t
                  \<Longrightarrow> \<exists>v' h'. h_recursiveSanitize (Suc k) e v (h, f) = Some (v', h', f \<or> flagV e t)
                        \<and> h_readB (\<lambda>a. base \<le> a \<and> a < length h) k h' v' = Some (sanV e t)"
    and cur: "cell_at hb cur = Some (CArr xs)" "cur < base" "base \<le> L"
    and rdx: "list_all2 (\<lambda>v t. h_readB (\<lambda>a. base \<le> a) k hb v = Some t) xs ts"
    and wfs: "\<forall>t \<in> set ts. plain_data e t"
  shows "i \<le> length xs \<Longrightarrow> same_except L hb h \<Longrightarrow> L < length h
     \<Longrightarrow> cell_at h L = Some (CArr ys) \<Longrightarrow> length ys = length xs
     \<Longrightarrow> \<forall>j < i. h_readB (\<lambda>a. base \<le> a \<and> a \<le> L) k h (ys ! j) = Some (item_value e (ts ! j))
     \<Longrightarrow> \<exists>h' ys'. h_sanitizeItems (Suc k) e cur [i ..< length xs] L (h, f)
                     = Some (h', f \<or> list_ex (item_flag e) (drop i ts))
           \<and> same_except L h h' \<and> length h \<le> length h'
           \<and> cell_at h' L = Some (CArr ys') \<and> length ys' = length xs
           \<and> (\<forall>j < length xs. h_readB (\<lambda>a. base \<le> a \<and> a \<le> L) k h' (ys' ! j)
                                 = Some (item_value e (ts ! j)))"
proof (induction "length xs - i" arbitrary: i h f ys)
  case 0
  then have i: "i = length xs" by simp
  have "length ts = length xs" using rdx by (simp add: list_all2_lengthD)
  then show ?case using 0 i by (auto simp: same_except_refl)
next
  case (Suc m)
  then have i: "i < length xs" by simp
  have lts: "length ts = length xs" using rdx by (simp add: list_all2_lengthD)
  have upt: "[i ..< length xs] = i # [Suc i ..< length xs]" using i by (rule upt_conv_Cons)
  have neq: "cur \<noteq> L" using cur(2,3) by simp
  have ch: "cell_at h cur = Some (CArr xs)"
    using Suc.prems(2) cur(1) neq by (simp add: same_except_def)
  have get: "h_item h cur i = xs ! i" using ch i by (simp add: h_item_def)
  have rdb: "h_readB (\<lambda>a. base \<le> a) k hb (xs ! i) = Some (ts ! i)"
    using rdx i by (rule list_all2_nthD)
  have rd: "h_readB (\<lambda>a. base \<le> a) k h (h_item h cur i) = Some (ts ! i)"
    unfolding get using _ _ rdb
  proof (rule readB_stable)
    fix a c assume "\<not> base \<le> a" "cell_at hb a = Some c"
    then show "cell_at h a = Some c" using Suc.prems(2) cur(3) by (simp add: same_except_def)
  qed simp
  have wf: "plain_data e (ts ! i)" using wfs i lts by simp
  have bl: "base \<le> length h" using cur(3) Suc.prems(3) by simp
  from items_step [OF rec rd bl wf, of "[Suc i ..< length xs]" L f]
  obtain w h2 where eq: "h_sanitizeItems (Suc k) e cur (i # [Suc i ..< length xs]) L (h, f)
            = h_sanitizeItems (Suc k) e cur [Suc i ..< length xs] L
                (h_set_item h2 L i w, f \<or> item_flag e (ts ! i))"
    and pre: "prefix h h2"
    and rw: "h_readB (\<lambda>a. base \<le> a \<and> a < length h) k h2 w = Some (item_value e (ts ! i))"
    by blast
  let ?h3 = "h_set_item h2 L i w"
  have c2: "cell_at h2 L = Some (CArr ys)" using pre Suc.prems(4) by (rule cell_at_prefix)
  have c3: "cell_at ?h3 L = Some (CArr (ys[i := w]))" using c2 by (rule cell_set_item)
  have s23: "same_except L h2 ?h3" by (rule same_except_set_item)
  have s3: "same_except L h ?h3"
    using same_except_prefix [OF pre] s23 by (rule same_except_trans)
  have sb3: "same_except L hb ?h3" using Suc.prems(2) s3 by (rule same_except_trans)
  have len: "length h \<le> length ?h3"
    using prefix_length_le [OF pre] by (simp add: length_set_item)
  then have l3: "L < length ?h3" using Suc.prems(3) by simp
  have new: "h_readB (\<lambda>a. base \<le> a \<and> a \<le> L) k ?h3 w = Some (item_value e (ts ! i))"
    using _ _ rw
  proof (rule readB_stable)
    fix a assume "base \<le> a \<and> a \<le> L"
    then show "base \<le> a \<and> a < length h" using Suc.prems(3) by simp
  next
    fix a c assume "\<not> (base \<le> a \<and> a < length h)" "cell_at h2 a = Some c"
    then show "cell_at ?h3 a = Some c"
      using s23 cur(3) Suc.prems(3) by (auto simp: same_except_def)
  qed
  have inv: "\<forall>j < Suc i. h_readB (\<lambda>a. base \<le> a \<and> a \<le> L) k ?h3 ((ys[i := w]) ! j)
                            = Some (item_value e (ts ! j))"
  proof (intro allI impI)
    fix j assume j: "j < Suc i"
    show "h_readB (\<lambda>a. base \<le> a \<and> a \<le> L) k ?h3 ((ys[i := w]) ! j) = Some (item_value e (ts ! j))"
    proof (cases "j = i")
      case True
      then show ?thesis using new i Suc.prems(5) by simp
    next
      case False
      then have ji: "j < i" using j by simp
      then have r: "h_readB (\<lambda>a. base \<le> a \<and> a \<le> L) k h (ys ! j) = Some (item_value e (ts ! j))"
        using Suc.prems(6) by blast
      have "h_readB (\<lambda>a. base \<le> a \<and> a \<le> L) k ?h3 (ys ! j) = Some (item_value e (ts ! j))"
        using _ _ r
      proof (rule readB_stable)
        fix a c assume "\<not> (base \<le> a \<and> a \<le> L)" "cell_at h a = Some c"
        then show "cell_at ?h3 a = Some c" using s3 cur(3) by (auto simp: same_except_def)
      qed simp
      then show ?thesis using False by simp
    qed
  qed
  have m: "m = length xs - Suc i" using Suc.hyps(2) by simp
  have si: "Suc i \<le> length xs" using i by simp
  have ly: "length (ys[i := w]) = length xs" using Suc.prems(5) by simp
  from Suc.hyps(1) [OF m si sb3 l3 c3 ly inv, of "f \<or> item_flag e (ts ! i)"]
  obtain h' ys' where
    fin: "h_sanitizeItems (Suc k) e cur [Suc i ..< length xs] L (?h3, f \<or> item_flag e (ts ! i))
            = Some (h', (f \<or> item_flag e (ts ! i)) \<or> list_ex (item_flag e) (drop (Suc i) ts))"
    and s4: "same_except L ?h3 h'" and l4: "length ?h3 \<le> length h'"
    and c4: "cell_at h' L = Some (CArr ys')" and ly': "length ys' = length xs"
    and r4: "\<forall>j < length xs. h_readB (\<lambda>a. base \<le> a \<and> a \<le> L) k h' (ys' ! j)
                                 = Some (item_value e (ts ! j))"
    by blast
  have dr: "drop i ts = ts ! i # drop (Suc i) ts"
    using i lts by (simp add: Cons_nth_drop_Suc)
  have "h_sanitizeItems (Suc k) e cur [i ..< length xs] L (h, f)
          = Some (h', f \<or> list_ex (item_flag e) (drop i ts))"
    unfolding upt dr using eq fin by (simp del: h_sanitizeItems.simps)
  moreover have "same_except L h h'" using s3 s4 by (rule same_except_trans)
  moreover have "length h \<le> length h'" using len l4 by simp
  ultimately show ?case using c4 ly' r4 by blast
qed

lemma leaf_refine:
  assumes rd: "h_readB B k h v = Some t" and leaf: "\<And>a. v \<noteq> HRef a"
  shows "h_recursiveSanitize (Suc k) e v (h, f) = Some (v, h, f)
     \<and> flagV e t = False \<and> sanV e t = t \<and> h_readB B' k' h' v = Some t"
proof (cases v)
  case (HRef a)
  then show ?thesis using leaf by blast
qed (use rd in \<open>auto simp: sanV_simps flagV_simps\<close>)

lemma rec_refine:
  "h_readB (\<lambda>a. base \<le> a) k h v = Some t \<Longrightarrow> base \<le> length h \<Longrightarrow> plain_data e t
     \<Longrightarrow> \<exists>v' h'. h_recursiveSanitize (Suc k) e v (h, f) = Some (v', h', f \<or> flagV e t)
           \<and> h_readB (\<lambda>a. base \<le> a \<and> a < length h) k h' v' = Some (sanV e t)"
proof (induction k arbitrary: v t h f base)
  case 0
  have leaf: "\<And>a. v \<noteq> HRef a" using "0.prems"(1) by auto
  show ?case
    using leaf_refine [OF "0.prems"(1) leaf, of e f "\<lambda>a. base \<le> a \<and> a < length h" 0 h]
    by simp
next
  case (Suc k)
  show ?case
  proof (cases "\<exists>a. v = HRef a")
    case False
    then have leaf: "\<And>a. v \<noteq> HRef a" by blast
    show ?thesis
      using leaf_refine [OF Suc.prems(1) leaf, of e f "\<lambda>a. base \<le> a \<and> a < length h" "Suc k" h]
      by simp
  next
    case True
    then obtain a where HRef: "v = HRef a" by blast
    from Suc.prems(1) have ab: "a < base" unfolding HRef by (auto split: if_splits)
    from Suc.prems(1) ab obtain c where c: "cell_at h a = Some c"
      unfolding HRef by (auto split: option.splits)
    let ?L = "length h"
    have same: "h_readB (\<lambda>a. base \<le> a \<and> a < length h) (Suc k) h v = Some t"
      using _ _ Suc.prems(1) by (rule readB_stable) simp_all
    show ?thesis
    proof (cases c)
      case (CObj kvs)
      then obtain ts where ts: "h_readPropsB (\<lambda>a. base \<le> a) k h kvs = Some ts" and t: "t = JObj ts"
        using Suc.prems(1) ab c unfolding HRef by auto
      note all2 = ts [unfolded readPropsB_iff]
      show ?thesis
      proof (cases "isPlainObject t")
        case False
        then have "\<not> h_isPlainObject h v" using readB_kind(1) [OF Suc.prems(1) Suc.prems(3)] by simp
        moreover have "\<not> h_isArray h v" using c CObj unfolding HRef by simp
        ultimately have "h_recursiveSanitize (Suc (Suc k)) e v (h, f) = Some (v, h, f)" by simp
        moreover have "flagV e t = False" "sanV e t = t"
          using False unfolding t by (simp_all add: flagV_simps sanV_simps del: isPlainObject.simps)
        ultimately show ?thesis using same by simp
      next
        case True
        then have hp: "h_isPlainObject h v" using readB_kind(1) [OF Suc.prems(1) Suc.prems(3)] by simp
        have keys: "map fst kvs = map fst ts"
          using all2 by (induction kvs ts rule: list_all2_induct) auto
        have dist: "distinct (map fst kvs)" using Suc.prems(3) unfolding t keys by simp
        have wfs: "\<forall>q \<in> set ts. newKey_of e (fst q) \<noteq> ''__proto__'' \<and> plain_data e (snd q)"
          using Suc.prems(3) unfolding t by simp
        have "\<exists>h' out_h. h_sanitizeProps (Suc k) e a (map fst kvs) ?L (h @ [CObj []], f)
                       = Some (h', f \<or> list_ex (prop_flag e) ts)
           \<and> same_except ?L (h @ [CObj []]) h' \<and> length (h @ [CObj []]) \<le> length h'
           \<and> cell_at h' ?L = Some (CObj out_h)
           \<and> list_all2 (\<lambda>p q. fst p = fst q
                         \<and> h_readB (\<lambda>a. base \<le> a \<and> a \<le> ?L) k h' (snd p) = Some (snd q))
                 out_h (fold (own_step e) ts [])"
        proof (rule props_refine [where hb = h and kvs = kvs and acc_h = "[]"])
          show "cell_at h a = Some (CObj kvs)" using c CObj by simp
          show "a < base" by (rule ab)
          show "base \<le> ?L" by (rule Suc.prems(2))
          show "distinct (map fst kvs)" by (rule dist)
          show "set kvs \<subseteq> set kvs" by simp
          show "list_all2 (\<lambda>p q. fst p = fst q \<and> h_readB (\<lambda>a. base \<le> a) k h (snd p) = Some (snd q))
                  kvs ts" by (rule all2)
          show "\<forall>q \<in> set ts. newKey_of e (fst q) \<noteq> ''__proto__'' \<and> plain_data e (snd q)"
            by (rule wfs)
          show "same_except ?L h (h @ [CObj []])" by (rule same_except_prefix) simp
          show "?L < length (h @ [CObj []])" by simp
          show "cell_at (h @ [CObj []]) ?L = Some (CObj [])" by (rule cell_at_snoc)
          show "list_all2 (\<lambda>p q. fst p = fst q
                         \<and> h_readB (\<lambda>a. base \<le> a \<and> a \<le> ?L) k (h @ [CObj []]) (snd p)
                             = Some (snd q)) [] []" by simp
        next
          fix v t h f base
          assume "h_readB (\<lambda>a. base \<le> a) k h v = Some t" "base \<le> length h" "plain_data e t"
          then show "\<exists>v' h'. h_recursiveSanitize (Suc k) e v (h, f) = Some (v', h', f \<or> flagV e t)
                        \<and> h_readB (\<lambda>a. base \<le> a \<and> a < length h) k h' v' = Some (sanV e t)"
            by (rule Suc.IH)
        qed
        then obtain h' out_h where
          run: "h_sanitizeProps (Suc k) e a (map fst kvs) ?L (h @ [CObj []], f)
                       = Some (h', f \<or> list_ex (prop_flag e) ts)"
          and cell: "cell_at h' ?L = Some (CObj out_h)"
          and out: "list_all2 (\<lambda>p q. fst p = fst q
                         \<and> h_readB (\<lambda>a. base \<le> a \<and> a \<le> ?L) k h' (snd p) = Some (snd q))
                 out_h (fold (own_step e) ts [])"
          by blast
        have hk: "h_keys h a = map fst kvs" using c CObj by (simp add: h_keys_def)
        have res: "h_recursiveSanitize (Suc (Suc k)) e v (h, f)
                     = Some (HRef ?L, h', f \<or> flagV e t)"
          using hp run True unfolding HRef t hk [symmetric]
          by (simp add: alloc_def flagV_simps del: h_sanitizeProps.simps isPlainObject.simps
                h_isPlainObject.simps)
        have "list_all2 (\<lambda>p q. fst p = fst q
                         \<and> h_readB (\<lambda>a. base \<le> a \<and> a < ?L) k h' (snd p) = Some (snd q))
                 out_h (fold (own_step e) ts [])"
          using out
        proof (rule list_all2_mono)
          fix x y
          assume xy: "fst x = fst y
                   \<and> h_readB (\<lambda>a. base \<le> a \<and> a \<le> ?L) k h' (snd x) = Some (snd y)"
          then have r: "h_readB (\<lambda>a. base \<le> a \<and> a \<le> ?L) k h' (snd x) = Some (snd y)"
            by simp
          have "h_readB (\<lambda>a. base \<le> a \<and> a < ?L) k h' (snd x) = Some (snd y)"
            using _ _ r
          proof (rule readB_stable)
            fix a assume "base \<le> a \<and> a < ?L"
            then show "base \<le> a \<and> a \<le> ?L" by simp
          qed
          with xy show "fst x = fst y
                   \<and> h_readB (\<lambda>a. base \<le> a \<and> a < ?L) k h' (snd x) = Some (snd y)" by simp
        qed
        then have "h_readPropsB (\<lambda>a. base \<le> a \<and> a < ?L) k h' out_h
                     = Some (fold (own_step e) ts [])"
          unfolding readPropsB_iff .
        then have rdres: "h_readB (\<lambda>a. base \<le> a \<and> a < ?L) (Suc k) h' (HRef ?L) = Some (sanV e t)"
          using cell True wfs unfolding t by (simp add: sanV_plain del: isPlainObject.simps)
        show ?thesis
          by (rule exI [of _ "HRef ?L"], rule exI [of _ h'], rule conjI [OF res rdres])
      qed
    next
      case (CObjP p kvs)
      then have "\<exists>q ts. t = JObjP q ts"
        using Suc.prems(1) ab c unfolding HRef by (auto split: option.splits)
      then show ?thesis using Suc.prems(3) by auto
    next
      case (CArr xs)
      then obtain ts where ts: "h_readItemsB (\<lambda>a. base \<le> a) k h xs = Some ts" and t: "t = JArr ts"
        using Suc.prems(1) ab c unfolding HRef by auto
      note all2 = ts [unfolded readItemsB_iff]
      have lts: "length ts = length xs" using all2 by (simp add: list_all2_lengthD)
      have np: "\<not> h_isPlainObject h v" using c CArr unfolding HRef by simp
      have ha: "h_isArray h v" using c CArr unfolding HRef by simp
      have hl: "h_length h a = length xs" using c CArr by (simp add: h_length_def)
      have wfs: "\<forall>t \<in> set ts. plain_data e t" using Suc.prems(3) unfolding t by simp
      let ?new = "CArr (replicate (length xs) HUndefined)"
      have "\<exists>h' ys'. h_sanitizeItems (Suc k) e a [0 ..< length xs] ?L (h @ [?new], f)
                     = Some (h', f \<or> list_ex (item_flag e) (drop 0 ts))
           \<and> same_except ?L (h @ [?new]) h' \<and> length (h @ [?new]) \<le> length h'
           \<and> cell_at h' ?L = Some (CArr ys') \<and> length ys' = length xs
           \<and> (\<forall>j < length xs. h_readB (\<lambda>a. base \<le> a \<and> a \<le> ?L) k h' (ys' ! j)
                                 = Some (item_value e (ts ! j)))"
      proof (rule items_refine [where hb = h and ys = "replicate (length xs) HUndefined"])
        show "cell_at h a = Some (CArr xs)" using c CArr by simp
        show "a < base" by (rule ab)
        show "base \<le> ?L" by (rule Suc.prems(2))
        show "list_all2 (\<lambda>v t. h_readB (\<lambda>a. base \<le> a) k h v = Some t) xs ts" by (rule all2)
        show "\<forall>t \<in> set ts. plain_data e t" by (rule wfs)
        show "0 \<le> length xs" by simp
        show "same_except ?L h (h @ [?new])" by (rule same_except_prefix) simp
        show "?L < length (h @ [?new])" by simp
        show "cell_at (h @ [?new]) ?L = Some ?new" by (rule cell_at_snoc)
        show "length (replicate (length xs) HUndefined) = length xs" by simp
        show "\<forall>j < 0. h_readB (\<lambda>a. base \<le> a \<and> a \<le> ?L) k (h @ [?new])
                          (replicate (length xs) HUndefined ! j) = Some (item_value e (ts ! j))"
          by simp
      next
        fix v t h f base
        assume "h_readB (\<lambda>a. base \<le> a) k h v = Some t" "base \<le> length h" "plain_data e t"
        then show "\<exists>v' h'. h_recursiveSanitize (Suc k) e v (h, f) = Some (v', h', f \<or> flagV e t)
                      \<and> h_readB (\<lambda>a. base \<le> a \<and> a < length h) k h' v' = Some (sanV e t)"
          by (rule Suc.IH)
      qed
      then obtain h' ys' where
        run: "h_sanitizeItems (Suc k) e a [0 ..< length xs] ?L (h @ [?new], f)
                     = Some (h', f \<or> list_ex (item_flag e) ts)"
        and cell: "cell_at h' ?L = Some (CArr ys')" and ly: "length ys' = length xs"
        and out: "\<forall>j < length xs. h_readB (\<lambda>a. base \<le> a \<and> a \<le> ?L) k h' (ys' ! j)
                                 = Some (item_value e (ts ! j))"
        by auto
      have res: "h_recursiveSanitize (Suc (Suc k)) e v (h, f) = Some (HRef ?L, h', f \<or> flagV e t)"
        using np ha run unfolding HRef t
        by (simp add: alloc_def hl flagV_simps del: h_sanitizeItems.simps h_isPlainObject.simps
              h_isArray.simps)
      have "list_all2 (\<lambda>v t. h_readB (\<lambda>a. base \<le> a \<and> a < ?L) k h' v = Some t)
              ys' (map (item_value e) ts)"
      proof (rule list_all2_all_nthI)
        show "length ys' = length (map (item_value e) ts)" using ly lts by simp
      next
        fix j assume "j < length ys'"
        then have j: "j < length xs" using ly by simp
        then have "h_readB (\<lambda>a. base \<le> a \<and> a \<le> ?L) k h' (ys' ! j) = Some (item_value e (ts ! j))"
          using out by blast
        then have r: "h_readB (\<lambda>a. base \<le> a \<and> a \<le> ?L) k h' (ys' ! j)
                        = Some (item_value e (ts ! j))" .
        have "h_readB (\<lambda>a. base \<le> a \<and> a < ?L) k h' (ys' ! j) = Some (item_value e (ts ! j))"
          using _ _ r
        proof (rule readB_stable)
          fix a assume "base \<le> a \<and> a < ?L"
          then show "base \<le> a \<and> a \<le> ?L" by simp
        qed
        then show "h_readB (\<lambda>a. base \<le> a \<and> a < ?L) k h' (ys' ! j) = Some (map (item_value e) ts ! j)"
          using j lts by simp
      qed
      then have "h_readItemsB (\<lambda>a. base \<le> a \<and> a < ?L) k h' ys' = Some (map (item_value e) ts)"
        unfolding readItemsB_iff .
      then have rdres: "h_readB (\<lambda>a. base \<le> a \<and> a < ?L) (Suc k) h' (HRef ?L) = Some (sanV e t)"
        using cell unfolding t by (simp add: sanV_simps)
      show ?thesis
        by (rule exI [of _ "HRef ?L"], rule exI [of _ h'], rule conjI [OF res rdres])
    qed
  qed
qed



text \<open>
  When the input stands for a tree in which nothing touches a prototype, with each key
  once per object, the engine on the store returns within the bound, its flag is the
  flag of the engine on trees, and its result stands for the tree that engine returns.
\<close>

theorem store_agrees_with_tree:
  assumes rd: "h_read k h obj = Some t" and wf: "plain_data (closure_of opts) t"
  shows "\<exists>r h'. h_sanitize (Suc k) obj opts h = Some (r, h')
           \<and> h_isSanitized r = isSanitized (u_sanitize t opts)
           \<and> h_read k h' (h_target r) = Some (target (u_sanitize t opts))"
proof -
  let ?e = "closure_of opts"
  note kind = readB_kind [OF read_readB [OF rd] wf]
  have wfv: "wf_val t" "proto_free ?e t" using wf by (simp_all add: plain_data_def)
  show ?thesis
  proof (cases "isPlainObject t \<or> isArray t")
    case True
    then have hc: "h_isPlainObject h obj \<or> h_isArray h obj" using kind(1,2) by simp
    then obtain a where a: "obj = HRef a" by (cases obj) auto
    from clone_reads_eq [OF rd wf] obtain clone h1 where
      c: "h_cloneDeep (Suc k) h obj = Some (clone, h1)" and r1: "h_read k h1 clone = Some t"
      by blast
    have p1: "prefix h h1" using c by (rule clone_frame_val)
    have rb: "h_readB (\<lambda>a. length h1 \<le> a) k h1 clone = Some t" using r1 by (rule read_readB)
    from rec_refine [OF rb _ wf, of False] obtain v' h' where
      rs: "h_recursiveSanitize (Suc k) ?e clone (h1, False) = Some (v', h', False \<or> flagV ?e t)"
      and rv: "h_readB (\<lambda>a. length h1 \<le> a \<and> a < length h1) k h' v' = Some (sanV ?e t)"
      by auto
    have p2: "prefix h1 h'" using rs by (rule rec_frame) simp
    have rt: "h_read k h' obj = Some t"
      using prefix_order.trans [OF p1 p2] rd by (rule read_prefix_val)
    have rv': "h_read k h' v' = Some (sanV ?e t)" using rv by (rule readB_val)
    let ?r = "\<lparr>h_isSanitized = flagV ?e t, h_target = (if c_dryRun ?e then obj else v')\<rparr>"
    have cont: "(\<not> h_isPlainObject h (HRef a) \<and> \<not> h_isArray h (HRef a)) = False"
      using hc unfolding a by blast
    have run: "h_sanitize (Suc k) obj opts h = Some (?r, h')"
      using c rs unfolding a
      by (simp add: h_sanitize_def Let_def cont del: h_cloneDeep.simps h_recursiveSanitize.simps
            h_isPlainObject.simps h_isArray.simps)
    have "h_isSanitized ?r = isSanitized (u_sanitize t opts)"
      using True wfv by (simp add: u_sanitize_data)
    moreover have "h_read k h' (h_target ?r) = Some (target (u_sanitize t opts))"
      using True rt rv' wfv by (simp add: u_sanitize_data)
    ultimately show ?thesis using run by blast
  next
    case False
    then have nc: "\<not> h_isPlainObject h obj" "\<not> h_isArray h obj" using kind(1,2) by simp_all
    show ?thesis
    proof (cases "isString t")
      case True
      then obtain s where o: "obj = HStr s" using kind(3) by blast
      then have t: "t = JStr s" by (rule kind(4))
      show ?thesis unfolding o t
        by (simp add: h_sanitize_def u_sanitize_def Let_def)
    next
      case ns: False
      have nstr: "\<And>s. obj \<noteq> HStr s" using ns kind(3) by blast
      have "h_sanitize (Suc k) obj opts h = Some (\<lparr>h_isSanitized = False, h_target = obj\<rparr>, h)"
      proof (cases obj)
        case (HStr s)
        then show ?thesis using nstr by blast
      qed (use nc in \<open>simp_all add: h_sanitize_def Let_def\<close>)
      moreover have "u_sanitize t opts = \<lparr>isSanitized = False, target = t\<rparr>"
        using False ns by (simp add: u_sanitize_other)
      ultimately show ?thesis using rd by simp
    qed
  qed
qed

theorem store_agrees_with_tree_witness:
  "h_read 2 [CObj [(''a.b'', HRef 1), (''$k'', HStr ''x.y'')], CArr [HStr ''$'', HNull]] (HRef 0)
     = Some (JObj [(''a.b'', JArr [JStr ''$'', JNull]), (''$k'', JStr ''x.y'')])
   \<and> plain_data (closure_of no_options)
        (JObj [(''a.b'', JArr [JStr ''$'', JNull]), (''$k'', JStr ''x.y'')])
   \<and> (\<exists>r h'. h_sanitize 3 (HRef 0) no_options
                 [CObj [(''a.b'', HRef 1), (''$k'', HStr ''x.y'')], CArr [HStr ''$'', HNull]]
               = Some (r, h')
         \<and> h_isSanitized r
         \<and> h_read 2 h' (h_target r)
             = Some (JObj [(''a_b'', JArr [JStr ''_'', JNull]), (''_k'', JStr ''x_y'')]))"
proof -
  let ?H = "[CObj [(''a.b'', HRef 1), (''$k'', HStr ''x.y'')], CArr [HStr ''$'', HNull]]"
  let ?T = "JObj [(''a.b'', JArr [JStr ''$'', JNull]), (''$k'', JStr ''x.y'')]"
  have rd: "h_read 2 ?H (HRef 0) = Some ?T" by code_simp
  have wf: "plain_data (closure_of no_options) ?T" by code_simp
  have pure: "u_sanitize ?T no_options
     = \<lparr>isSanitized = True,
        target = JObj [(''a_b'', JArr [JStr ''_'', JNull]), (''_k'', JStr ''x_y'')]\<rparr>"
    by code_simp
  from store_agrees_with_tree [OF rd wf]
  have "\<exists>r h'. h_sanitize 3 (HRef 0) no_options ?H = Some (r, h')
         \<and> h_isSanitized r
         \<and> h_read 2 h' (h_target r)
             = Some (JObj [(''a_b'', JArr [JStr ''_'', JNull]), (''_k'', JStr ''x_y'')])"
    unfolding pure by (simp add: eval_nat_numeral)
  with rd wf show ?thesis by blast
qed

section \<open>The claims of the specification\<close>

text \<open>
  Claim C1: the flag \<open>isSanitized\<close>, and so the result of \<open>has\<close>, is true exactly when a
  forbidden character occurs in a key or a string value anywhere in the input, for
  \<open>dryRun\<close> true as for \<open>dryRun\<close> false. The code does not do this: inside
  \<open>_recursiveSanitize\<close> every assignment to \<open>hasSanitized\<close> is under \<open>if (!dryRun)\<close>, so
  with \<open>dryRun\<close> true, which is how \<open>has\<close> calls the engine, only a string at the root is
  ever flagged. \<open>has\<close> answers false for the object \<open>{ "$where": "1==1" }\<close>, and in general
  it is true only for a root string holding \<open>$\<close> or \<open>.\<close>.
\<close>

theorem has_misses_containers:
  "has (JObj [(''$where'', JStr ''1==1'')]) = False
   \<and> (\<forall>v. has v = (\<exists>s. v = JStr s \<and> (CHR ''$'' \<in> set s \<or> CHR ''.'' \<in> set s)))"
  by (simp add: has_eq)

text \<open>
  Claim C2: with \<open>dryRun\<close> true the value the engine returns is the input, for every
  input and whatever the other options are; in particular
  \<open>sanitize(T, {dryRun: true})\<close> is \<open>T\<close>.
\<close>

theorem dryRun_returns_input:
  "(dryRun opts = Some True \<longrightarrow> target (u_sanitize T opts) = T)
   \<and> sanitize T (Some (no_options\<lparr>dryRun := Some True\<rparr>)) = T"
proof -
  have "target (u_sanitize T opts) = T" if "c_dryRun (closure_of opts)" for opts
  proof (cases "isString T")
    case True
    then obtain s where "T = JStr s" by (cases T) auto
    then show ?thesis using that by (simp add: u_sanitize_string)
  next
    case False
    show ?thesis
    proof (cases "isPlainObject T \<or> isArray T")
      case True
      then show ?thesis using that by (simp add: u_sanitize_container)
    next
      case False
      with \<open>\<not> isString T\<close> show ?thesis by (simp add: u_sanitize_other)
    qed
  qed
  then show ?thesis
    by (simp add: sanitize_def closure_of_def no_options_def)
qed

theorem dryRun_returns_input_witness:
  "dryRun (no_options\<lparr>dryRun := Some True\<rparr>) = Some True
   \<and> target (u_sanitize (JObj [(''$where'', JStr ''1==1''), (''a.b'', JArr [JStr ''x.y''])])
        (no_options\<lparr>dryRun := Some True\<rparr>))
     = JObj [(''$where'', JStr ''1==1''), (''a.b'', JArr [JStr ''x.y''])]"
  using dryRun_returns_input
    [of "no_options\<lparr>dryRun := Some True\<rparr>"
        "JObj [(''$where'', JStr ''1==1''), (''a.b'', JArr [JStr ''x.y''])]"]
  by (simp add: no_options_def)

text \<open>
  Claim C3: the caller's data is unchanged after the call, for every input and every
  policy, \<open>dryRun\<close> false included: the engine works on a copy and assigns only to
  objects it has created. On the store: whenever a call returns, every cell that existed
  before the call holds what it held, for any store, cyclic data included; and when the
  input stands for a tree of depth at most \<open>k\<close>, the call returns within the bound
  \<open>k + 1\<close> and the input stands for the same tree afterwards.
\<close>

theorem input_not_mutated:
  "(h_sanitize n obj opts h = Some (r, h')
      \<longrightarrow> length h \<le> length h' \<and> (\<forall>a < length h. h' ! a = h ! a))
   \<and> (h_read k h obj = Some t
      \<longrightarrow> (\<exists>r h'. h_sanitize (Suc k) obj opts h = Some (r, h')
             \<and> (\<forall>a < length h. h' ! a = h ! a) \<and> h_read k h' obj = Some t))"
proof -
  have frame: "length h \<le> length h' \<and> (\<forall>a < length h. h' ! a = h ! a)"
    if "h_sanitize n obj opts h = Some (r, h')"
  proof -
    have "prefix h h'" using that by (rule h_sanitize_frame)
    then show ?thesis by (auto simp: prefix_def nth_append)
  qed
  have returns: "\<exists>r h'. h_sanitize (Suc k) obj opts h = Some (r, h')
             \<and> (\<forall>a < length h. h' ! a = h ! a) \<and> h_read k h' obj = Some t"
    if rd: "h_read k h obj = Some t"
  proof -
    obtain r h' where s: "h_sanitize (Suc k) obj opts h = Some (r, h')"
      using h_sanitize_returns [OF rd] by blast
    then have p: "prefix h h'" by (rule h_sanitize_frame)
    then have "\<forall>a < length h. h' ! a = h ! a" by (auto simp: prefix_def nth_append)
    moreover have "h_read k h' obj = Some t" using p rd by (rule read_prefix_val)
    ultimately show ?thesis using s by blast
  qed
  from frame returns show ?thesis by blast
qed


theorem input_not_mutated_witness:
  "h_sanitize 3 (HRef 0) no_options
       [CObj [(''a.b'', HRef 1), (''$k'', HStr ''x.y'')], CArr [HStr ''$'', HNull]]
     = Some (\<lparr>h_isSanitized = True, h_target = HRef 4\<rparr>,
             [CObj [(''a.b'', HRef 1), (''$k'', HStr ''x.y'')], CArr [HStr ''$'', HNull],
              CArr [HStr ''$'', HNull], CObj [(''a.b'', HRef 2), (''$k'', HStr ''x.y'')],
              CObj [(''a_b'', HRef 5), (''_k'', HStr ''x_y'')], CArr [HStr ''_'', HNull]])
   \<and> take 2
         [CObj [(''a.b'', HRef 1), (''$k'', HStr ''x.y'')], CArr [HStr ''$'', HNull],
          CArr [HStr ''$'', HNull], CObj [(''a.b'', HRef 2), (''$k'', HStr ''x.y'')],
          CObj [(''a_b'', HRef 5), (''_k'', HStr ''x_y'')], CArr [HStr ''_'', HNull]]
       = [CObj [(''a.b'', HRef 1), (''$k'', HStr ''x.y'')], CArr [HStr ''$'', HNull]]
   \<and> h_read 2 [CObj [(''a.b'', HRef 1), (''$k'', HStr ''x.y'')], CArr [HStr ''$'', HNull]] (HRef 0)
     = Some (JObj [(''a.b'', JArr [JStr ''$'', JNull]), (''$k'', JStr ''x.y'')])
   \<and> (\<exists>r h'. h_sanitize 3 (HRef 0) no_options
                 [CObj [(''a.b'', HRef 1), (''$k'', HStr ''x.y'')], CArr [HStr ''$'', HNull]]
               = Some (r, h')
         \<and> (\<forall>a < 2. h' ! a
                = [CObj [(''a.b'', HRef 1), (''$k'', HStr ''x.y'')], CArr [HStr ''$'', HNull]] ! a)
         \<and> h_read 2 h' (HRef 0)
             = Some (JObj [(''a.b'', JArr [JStr ''$'', JNull]), (''$k'', JStr ''x.y'')]))"
proof -
  let ?H = "[CObj [(''a.b'', HRef 1), (''$k'', HStr ''x.y'')], CArr [HStr ''$'', HNull]]"
  let ?H' = "[CObj [(''a.b'', HRef 1), (''$k'', HStr ''x.y'')], CArr [HStr ''$'', HNull],
              CArr [HStr ''$'', HNull], CObj [(''a.b'', HRef 2), (''$k'', HStr ''x.y'')],
              CObj [(''a_b'', HRef 5), (''_k'', HStr ''x_y'')], CArr [HStr ''_'', HNull]]"
  let ?R = "\<lparr>h_isSanitized = True, h_target = HRef 4\<rparr>"
  let ?T = "JObj [(''a.b'', JArr [JStr ''$'', JNull]), (''$k'', JStr ''x.y'')]"
  have ev: "h_sanitize 3 (HRef 0) no_options ?H = Some (?R, ?H')"
    by code_simp
  have rd: "h_read 2 ?H (HRef 0) = Some ?T"
    by code_simp
  note inst = input_not_mutated [of 3 "HRef 0" no_options ?H ?R ?H' 2 ?T]
  have "length ?H \<le> length ?H' \<and> (\<forall>a < length ?H. ?H' ! a = ?H ! a)"
    using inst [THEN conjunct1] ev by (rule mp)
  then have "length ?H \<le> length ?H' \<and> (\<forall>a < length ?H. take (length ?H) ?H' ! a = ?H ! a)"
    by simp
  then have "take (length ?H) ?H' = ?H"
    by (intro nth_equalityI) simp_all
  then have frame: "take 2 ?H' = ?H"
    by simp
  have "\<exists>r h'. h_sanitize (Suc 2) (HRef 0) no_options ?H = Some (r, h')
         \<and> (\<forall>a < length ?H. h' ! a = ?H ! a) \<and> h_read 2 h' (HRef 0) = Some ?T"
    using inst [THEN conjunct2] rd by (rule mp)
  then have ret: "\<exists>r h'. h_sanitize 3 (HRef 0) no_options ?H = Some (r, h')
         \<and> (\<forall>a < 2. h' ! a = ?H ! a) \<and> h_read 2 h' (HRef 0) = Some ?T"
    by (simp add: eval_nat_numeral)
  from ev frame rd ret show ?thesis by (intro conjI)
qed

text \<open>
  Claim C4: without \<open>dryRun\<close>, sanitizing a string replaces every occurrence of every
  forbidden character by the replacement string, inserted as it is written, and a string
  without forbidden character comes back unchanged with the flag false. As stated this
  fails: \<open>replace\<close> expands the patterns \<open>$$\<close>, \<open>$&\<close>, \<open>$`\<close> and \<open>$'\<close> in the replacement
  string, so with \<open>replaceWith = "$&"\<close> every forbidden character is replaced by itself.
  It holds for every replacement string that holds none of these four patterns, the
  default \<open>"_"\<close> among them.
\<close>

theorem string_replacement:
  assumes "\<not> c_dryRun (closure_of opts)"
    and "\<not> has_pattern (c_replaceWith (closure_of opts))"
  shows "u_sanitize (JStr s) opts =
           \<lparr>isSanitized = (\<exists>c \<in> set s. forbidden opts c),
            target = JStr (concat (map (\<lambda>c. if forbidden opts c
                                             then c_replaceWith (closure_of opts) else [c]) s))\<rparr>
         \<and> ((\<forall>c \<in> set s. \<not> forbidden opts c)
              \<longrightarrow> u_sanitize (JStr s) opts = \<lparr>isSanitized = False, target = JStr s\<rparr>)"
proof -
  have lit: "literal_replace (forbidden opts) (c_replaceWith (closure_of opts)) s = s"
    if "\<not> match s (forbidden opts)"
    using that by (rule literal_replace_clean)
  show ?thesis
    using assms lit
    by (auto simp: u_sanitize_string charRegex_forbidden replace_literal match_iff
          literal_replace_def)
qed

theorem string_replacement_witness:
  "\<not> c_dryRun (closure_of no_options) \<and> \<not> has_pattern (c_replaceWith (closure_of no_options))
   \<and> u_sanitize (JStr ''user.$name'') no_options
       = \<lparr>isSanitized = True, target = JStr ''user__name''\<rparr>"
  using string_replacement [of no_options "''user.$name''"]
  by (simp add: closure_of_def no_options_def forbidden_def)

text \<open>The claim as stated fails for \<open>sanitize("a.b", { replaceWith: "$&" })\<close>, which is
  \<open>"a.b"\<close> and not \<open>"a$&b"\<close>.\<close>

theorem replacement_pattern_counterexample:
  "sanitize (JStr ''a.b'') (Some (no_options\<lparr>replaceWith := Some (JStr ''$&'')\<rparr>)) = JStr ''a.b''
   \<and> sanitize (JStr ''a.b'') (Some (no_options\<lparr>replaceWith := Some (JStr ''$&'')\<rparr>))
       \<noteq> JStr (literal_replace (forbidden (no_options\<lparr>replaceWith := Some (JStr ''$&'')\<rparr>))
                 ''$&'' ''a.b'')"
  by (simp add: sanitize_def u_sanitize_string closure_of_def no_options_def charRegex_def
        match_def replace_def DOT_NO_SQL_CHARS_TO_REPLACE_def literal_replace_def forbidden_def)

text \<open>
  Claim C5: under the default policy (replacement \<open>"_"\<close>, \<open>allowDots\<close> false, \<open>dryRun\<close>
  false) sanitizing an already sanitized value changes nothing:
  \<open>sanitize(sanitize(T)) = sanitize(T)\<close> for every \<open>T\<close>. As stated this fails: the key
  \<open>$_proto__\<close> sanitizes to \<open>__proto__\<close>, and assigning to that key of the new object
  replaces its prototype instead of adding a property, so the first pass returns an
  object on the prototype the input supplied and the second pass rebuilds it on
  \<open>Object.prototype\<close>. It holds for all data in which nothing touches a prototype:
  every object has the prototype \<open>Object.prototype\<close>, each key once, and no key that
  sanitizes to \<open>__proto__\<close>.
\<close>

theorem sanitize_idempotent_default:
  "wf_val T \<and> proto_free (closure_of no_options) T
     \<longrightarrow> sanitize (sanitize T None) None = sanitize T None"
proof
  let ?e = "closure_of no_options"
  assume a: "wf_val T \<and> proto_free ?e T"
  have e: "\<not> c_dryRun ?e" "\<not> has_pattern (c_replaceWith ?e)"
    "\<forall>c \<in> set (c_replaceWith ?e). \<not> charRegex ?e c"
    by (simp_all add: closure_of_def no_options_def charRegex_def DOT_NO_SQL_CHARS_TO_REPLACE_def)
  have first: "sanitize T None = item_value ?e T"
    using e(1) a by (simp add: sanitize_def target_item_value)
  have "wf_val (item_value ?e T)" using a by (simp add: item_value_wf)
  moreover have "proto_free ?e (item_value ?e T)"
    using a item_value_proto_free [OF e(2,3)] by simp
  ultimately have "sanitize (item_value ?e T) None = item_value ?e (item_value ?e T)"
    using e(1) by (simp add: sanitize_def target_item_value)
  also have "\<dots> = item_value ?e T"
    using a item_value_idem [OF e] by simp
  finally show "sanitize (sanitize T None) None = sanitize T None"
    by (simp add: first)
qed

theorem sanitize_idempotent_default_witness:
  "wf_val (JObj [(''$where'', JStr ''1==1''), (''a.b'', JArr [JStr ''x.y'', JNum 5])])
   \<and> proto_free (closure_of no_options)
        (JObj [(''$where'', JStr ''1==1''), (''a.b'', JArr [JStr ''x.y'', JNum 5])])
   \<and> sanitize (JObj [(''$where'', JStr ''1==1''), (''a.b'', JArr [JStr ''x.y'', JNum 5])]) None
       = JObj [(''_where'', JStr ''1==1''), (''a_b'', JArr [JStr ''x_y'', JNum 5])]
   \<and> sanitize (JObj [(''_where'', JStr ''1==1''), (''a_b'', JArr [JStr ''x_y'', JNum 5])]) None
       = JObj [(''_where'', JStr ''1==1''), (''a_b'', JArr [JStr ''x_y'', JNum 5])]"
proof -
  let ?T = "JObj [(''$where'', JStr ''1==1''), (''a.b'', JArr [JStr ''x.y'', JNum 5])]"
  let ?R = "JObj [(''_where'', JStr ''1==1''), (''a_b'', JArr [JStr ''x_y'', JNum 5])]"
  have wf: "wf_val ?T" by simp
  have pf: "proto_free (closure_of no_options) ?T" by code_simp
  have first: "sanitize ?T None = ?R" by code_simp
  have "sanitize (sanitize ?T None) None = sanitize ?T None"
    using sanitize_idempotent_default [of ?T] wf pf by simp
  then have "sanitize ?R None = ?R" by (simp add: first)
  with wf pf first show ?thesis by (intro conjI)
qed

text \<open>The claim as stated fails for \<open>{ "$_proto__": { "isAdmin": true }, "b": 1 }\<close>: the
  first pass returns the object \<open>{ "b": 1 }\<close> whose prototype is \<open>{ "isAdmin": true }\<close>,
  the second pass the object \<open>{ "b": 1 }\<close> on \<open>Object.prototype\<close>.\<close>

theorem idempotence_counterexample:
  "sanitize (JObj [(''$_proto__'', JObj [(''isAdmin'', JBool True)]), (''b'', JNum 1)]) None
     = JObjP (JObj [(''isAdmin'', JBool True)]) [(''b'', JNum 1)]
   \<and> sanitize (JObjP (JObj [(''isAdmin'', JBool True)]) [(''b'', JNum 1)]) None
       = JObj [(''b'', JNum 1)]
   \<and> sanitize
         (sanitize (JObj [(''$_proto__'', JObj [(''isAdmin'', JBool True)]), (''b'', JNum 1)]) None)
         None
       \<noteq> sanitize (JObj [(''$_proto__'', JObj [(''isAdmin'', JBool True)]), (''b'', JNum 1)]) None"
proof -
  have 1: "sanitize (JObj [(''$_proto__'', JObj [(''isAdmin'', JBool True)]), (''b'', JNum 1)]) None
     = JObjP (JObj [(''isAdmin'', JBool True)]) [(''b'', JNum 1)]"
    by code_simp
  have 2: "sanitize (JObjP (JObj [(''isAdmin'', JBool True)]) [(''b'', JNum 1)]) None
       = JObj [(''b'', JNum 1)]"
    by code_simp
  show ?thesis by (simp add: 1 2)
qed

text \<open>
  Claim C6: for every input and every policy the output has the container shape of the
  input: an object stays an object and an array stays an array of the same length and
  order, at every level; the number of keys of an object can only go down, and goes down
  only when two different keys sanitize to the same output key. As stated this fails: a
  key that sanitizes to \<open>__proto__\<close> is assigned through the setter of the prototype
  and leaves no property, so \<open>{ "$_proto__": 1 }\<close> comes back as \<open>{}\<close>, one key fewer
  and no second key to collide with. It holds for all data in which nothing touches a
  prototype.
\<close>

theorem structure_preserved:
  "wf_val v \<and> proto_free (closure_of opts) v \<longrightarrow>
     same_shape (newKey_of (closure_of opts)) v (target (u_sanitize v opts))
     \<and> (\<forall>xs. v = JArr xs \<longrightarrow>
           (\<exists>ys. target (u_sanitize v opts) = JArr ys \<and> length ys = length xs))
     \<and> (\<forall>kvs. v = JObj kvs \<longrightarrow>
           (\<exists>out. target (u_sanitize v opts) = JObj out
              \<and> card (fst ` set out) \<le> card (fst ` set kvs)
              \<and> (card (fst ` set out) < card (fst ` set kvs) \<longrightarrow>
                   (\<exists>p \<in> set kvs. \<exists>q \<in> set kvs. fst p \<noteq> fst q
                      \<and> newKey_of (closure_of opts) (fst p) = newKey_of (closure_of opts) (fst q)))))"
proof
  let ?e = "closure_of opts"
  assume a: "wf_val v \<and> proto_free ?e v"
  have sh: "same_shape (newKey_of ?e) v (target (u_sanitize v opts))"
  proof (cases "c_dryRun ?e")
    case True
    have "target (u_sanitize v opts) = v"
    proof (cases "isString v")
      case True
      then obtain s where "v = JStr s" by (cases v) auto
      then show ?thesis using \<open>c_dryRun ?e\<close> by (simp add: u_sanitize_string)
    next
      case False
      then show ?thesis using \<open>c_dryRun ?e\<close>
        by (cases "isPlainObject v \<or> isArray v")
          (simp_all add: u_sanitize_container u_sanitize_other)
    qed
    then show ?thesis by (simp add: same_shape_refl)
  next
    case False
    then show ?thesis using a by (simp add: target_item_value same_shape_item)
  qed
  have arr: "\<exists>ys. target (u_sanitize v opts) = JArr ys \<and> length ys = length xs"
    if "v = JArr xs" for xs
    using sh that by (cases "target (u_sanitize v opts)") (auto dest: list_all2_lengthD)
  have obj: "\<exists>out. target (u_sanitize v opts) = JObj out
            \<and> card (fst ` set out) \<le> card (fst ` set kvs)
            \<and> (card (fst ` set out) < card (fst ` set kvs) \<longrightarrow>
                 (\<exists>p \<in> set kvs. \<exists>q \<in> set kvs. fst p \<noteq> fst q
                    \<and> newKey_of ?e (fst p) = newKey_of ?e (fst q)))"
    if "v = JObj kvs" for kvs
    using sh that by (cases "target (u_sanitize v opts)") simp_all
  from sh arr obj show "same_shape (newKey_of ?e) v (target (u_sanitize v opts))
     \<and> (\<forall>xs. v = JArr xs \<longrightarrow>
           (\<exists>ys. target (u_sanitize v opts) = JArr ys \<and> length ys = length xs))
     \<and> (\<forall>kvs. v = JObj kvs \<longrightarrow>
           (\<exists>out. target (u_sanitize v opts) = JObj out
              \<and> card (fst ` set out) \<le> card (fst ` set kvs)
              \<and> (card (fst ` set out) < card (fst ` set kvs) \<longrightarrow>
                   (\<exists>p \<in> set kvs. \<exists>q \<in> set kvs. fst p \<noteq> fst q
                      \<and> newKey_of ?e (fst p) = newKey_of ?e (fst q)))))"
    by blast
qed

theorem structure_preserved_witness:
  "wf_val (JObj [(''a.b'', JArr [JStr ''$x'', JNull]), (''a$b'', JNum 2)])
   \<and> proto_free (closure_of (no_options\<lparr>replaceWith := Some (JStr [])\<rparr>))
        (JObj [(''a.b'', JArr [JStr ''$x'', JNull]), (''a$b'', JNum 2)])
   \<and> same_shape (newKey_of (closure_of (no_options\<lparr>replaceWith := Some (JStr [])\<rparr>)))
        (JObj [(''a.b'', JArr [JStr ''$x'', JNull]), (''a$b'', JNum 2)])
        (JObj [(''ab'', JNum 2)])
   \<and> target (u_sanitize (JObj [(''a.b'', JArr [JStr ''$x'', JNull]), (''a$b'', JNum 2)])
              (no_options\<lparr>replaceWith := Some (JStr [])\<rparr>))
       = JObj [(''ab'', JNum 2)]"
proof -
  let ?o = "no_options\<lparr>replaceWith := Some (JStr [])\<rparr>"
  let ?v = "JObj [(''a.b'', JArr [JStr ''$x'', JNull]), (''a$b'', JNum 2)]"
  have wf: "wf_val ?v" by simp
  have pf: "proto_free (closure_of ?o) ?v" by code_simp
  have t: "target (u_sanitize ?v ?o) = JObj [(''ab'', JNum 2)]" by code_simp
  have "same_shape (newKey_of (closure_of ?o)) ?v (target (u_sanitize ?v ?o))"
    using structure_preserved [of ?v ?o] wf pf by blast
  then have "same_shape (newKey_of (closure_of ?o)) ?v (JObj [(''ab'', JNum 2)])"
    by (simp only: t)
  with wf pf t show ?thesis by (intro conjI)
qed

text \<open>The claim as stated fails for \<open>{ "$_proto__": 1 }\<close> under the default policy: the
  output \<open>{}\<close> has lost the only key of the input.\<close>

theorem structure_counterexample:
  "sanitize (JObj [(''$_proto__'', JNum 1)]) None = JObj []
   \<and> \<not> same_shape (newKey_of (closure_of no_options)) (JObj [(''$_proto__'', JNum 1)])
          (sanitize (JObj [(''$_proto__'', JNum 1)]) None)"
proof -
  have 1: "sanitize (JObj [(''$_proto__'', JNum 1)]) None = JObj []" by code_simp
  show ?thesis by (simp add: 1)
qed











end
